theory Spec2Isabelle
  imports Main "HOL-Library.Monad_Syntax" "HOL-Library.AList"
begin

section \<open>Python lists\<close>

text \<open>
  The two programs (\<^verbatim>\<open>matcher.py\<close>, \<^verbatim>\<open>verifier.py\<close>) work on Python lists of
  integers. A Python integer is an \<^typ>\<open>int\<close>; a list read at an index outside
  \<open>-len .. len-1\<close> raises \<^verbatim>\<open>IndexError\<close>, a negative index counts from the end,
  and indexing with \<^verbatim>\<open>None\<close> raises \<^verbatim>\<open>TypeError\<close>. A raised exception is
  the value \<open>None\<close> of the option monad: nothing in the two algorithmic cores catches an
  exception, so the kind of the exception is never observed. The size \<open>n\<close> is a
  natural number, and \<^verbatim>\<open>range(n)\<close> is \<^term>\<open>[0..<n]\<close>.
\<close>

definition py_get :: "'a list \<Rightarrow> int \<Rightarrow> 'a option" where
  "py_get xs i =
     (let l = int (length xs); j = (if i < 0 then i + l else i)
      in if 0 \<le> j \<and> j < l then Some (xs ! nat j) else None)"

definition py_set :: "'a list \<Rightarrow> int \<Rightarrow> 'a \<Rightarrow> 'a list option" where
  "py_set xs i v =
     (let l = int (length xs); j = (if i < 0 then i + l else i)
      in if 0 \<le> j \<and> j < l then Some (xs[nat j := v]) else None)"

section \<open>Rank tables\<close>

text \<open>
  Both programs build a rank table from a preference table:
  \<^verbatim>\<open>
  student_ranking = []
  for s in range(n):
      ranking = [0] * n
      for rank, hospital in enumerate(student_prefs[s]):
          ranking[hospital] = rank
      student_ranking.append(ranking)
  \<close>
  \<open>fill_ranking\<close> is the inner loop (the list still to enumerate and the next rank),
  \<open>build_rankings\<close> the outer one (the indices still to visit and the table so far).
\<close>

fun fill_ranking :: "int list \<Rightarrow> int \<Rightarrow> int list \<Rightarrow> int list option" where
  "fill_ranking ranking rank [] = Some ranking"
| "fill_ranking ranking rank (x # xs) =
     do { r \<leftarrow> py_set ranking x rank; fill_ranking r (rank + 1) xs }"

fun rankings_loop :: "nat \<Rightarrow> int list list \<Rightarrow> nat list \<Rightarrow> int list list \<Rightarrow> int list list option" where
  "rankings_loop n prefs [] acc = Some acc"
| "rankings_loop n prefs (s # ss) acc =
     do { p \<leftarrow> py_get prefs (int s);
          r \<leftarrow> fill_ranking (replicate n 0) 0 p;
          rankings_loop n prefs ss (acc @ [r]) }"

definition build_rankings :: "nat \<Rightarrow> int list list \<Rightarrow> int list list option" where
  "build_rankings n prefs = rankings_loop n prefs [0..<n] []"

section \<open>The matching engine\<close>

text \<open>
  The working arrays of \<^verbatim>\<open>gale_shapley\<close>: \<open>hospital_match\<close> and
  \<open>student_match\<close> hold the partner or \<open>-1\<close>, \<open>next_proposal\<close> the cursors,
  \<open>proposal_count\<close> the number of proposals made so far.
\<close>

record gs_state =
  hospital_match :: "int list"
  student_match :: "int list"
  next_proposal :: "int list"
  proposal_count :: nat

text \<open>
  The scan for a free hospital:
  \<^verbatim>\<open>
  free_hospital = -1
  for h in range(n):
      if hospital_match[h] == -1 and next_proposal[h] < n:
          free_hospital = h
          break
  \<close>
  The list argument holds the indices still to scan.
\<close>

fun find_free :: "nat \<Rightarrow> int list \<Rightarrow> int list \<Rightarrow> nat list \<Rightarrow> int option" where
  "find_free n hm np [] = Some (- 1)"
| "find_free n hm np (h # hs) =
     do { m \<leftarrow> py_get hm (int h);
          if m = - 1
          then do { k \<leftarrow> py_get np (int h);
                    if k < int n then Some (int h) else find_free n hm np hs }
          else find_free n hm np hs }"

text \<open>
  The student the free hospital proposes to (line 79):
  \<^verbatim>\<open>student = hospital_prefs[free_hospital][next_proposal[free_hospital]]\<close>
\<close>

definition next_student :: "int list list \<Rightarrow> gs_state \<Rightarrow> int \<Rightarrow> int option" where
  "next_student hospital_prefs st free_hospital =
     do { prefs \<leftarrow> py_get hospital_prefs free_hospital;
          k \<leftarrow> py_get (next_proposal st) free_hospital;
          py_get prefs k }"

text \<open>
  The body of the main loop after the scan (lines 79 to 97): one proposal.
  \<^verbatim>\<open>
  next_proposal[free_hospital] += 1
  proposal_count += 1
  if student_match[student] == -1:
      hospital_match[free_hospital] = student
      student_match[student] = free_hospital
  else:
      current_hospital = student_match[student]
      if student_ranking[student][free_hospital] < student_ranking[student][current_hospital]:
          hospital_match[current_hospital] = -1
          hospital_match[free_hospital] = student
          student_match[student] = free_hospital
  \<close>
\<close>

definition propose :: "int list list \<Rightarrow> int list list \<Rightarrow> gs_state \<Rightarrow> int \<Rightarrow> gs_state option" where
  "propose hospital_prefs student_ranking st free_hospital =
     do { student \<leftarrow> next_student hospital_prefs st free_hospital;
          k \<leftarrow> py_get (next_proposal st) free_hospital;
          np \<leftarrow> py_set (next_proposal st) free_hospital (k + 1);
          let st1 = st\<lparr>next_proposal := np, proposal_count := proposal_count st + 1\<rparr>;
          current_hospital \<leftarrow> py_get (student_match st1) student;
          if current_hospital = - 1
          then do { hm \<leftarrow> py_set (hospital_match st1) free_hospital student;
                    sm \<leftarrow> py_set (student_match st1) student free_hospital;
                    Some (st1\<lparr>hospital_match := hm, student_match := sm\<rparr>) }
          else do { rk \<leftarrow> py_get student_ranking student;
                    a \<leftarrow> py_get rk free_hospital;
                    rk' \<leftarrow> py_get student_ranking student;
                    b \<leftarrow> py_get rk' current_hospital;
                    if a < b
                    then do { hm1 \<leftarrow> py_set (hospital_match st1) current_hospital (- 1);
                              hm \<leftarrow> py_set hm1 free_hospital student;
                              sm \<leftarrow> py_set (student_match st1) student free_hospital;
                              Some (st1\<lparr>hospital_match := hm, student_match := sm\<rparr>) }
                    else Some st1 } }"

text \<open>
  One iteration of \<^verbatim>\<open>while True\<close>: \<open>Some (Inl st)\<close> when the scan finds no free
  hospital and the loop breaks, \<open>Some (Inr st')\<close> after a proposal, \<open>None\<close> when an
  exception is raised.
\<close>

definition gs_iter :: "nat \<Rightarrow> int list list \<Rightarrow> int list list \<Rightarrow> gs_state \<Rightarrow> (gs_state + gs_state) option" where
  "gs_iter n hospital_prefs student_ranking st =
     do { free_hospital \<leftarrow> find_free n (hospital_match st) (next_proposal st) [0..<n];
          if free_hospital = - 1 then Some (Inl st)
          else do { st' \<leftarrow> propose hospital_prefs student_ranking st free_hospital;
                    Some (Inr st') } }"

text \<open>The cursors still available: what the main loop consumes.\<close>

definition remaining :: "nat \<Rightarrow> gs_state \<Rightarrow> nat" where
  "remaining n st = sum_list (map (\<lambda>k. nat (int n - k)) (next_proposal st))"


text \<open>
  The main loop of \<^verbatim>\<open>gale_shapley\<close>: iterate until the scan finds no free
  hospital. It returns the final state, of which \<^verbatim>\<open>gale_shapley\<close> returns
  \<open>hospital_match\<close>.
\<close>

function gs_loop :: "nat \<Rightarrow> int list list \<Rightarrow> int list list \<Rightarrow> gs_state \<Rightarrow> gs_state option" where
  "gs_loop n hospital_prefs student_ranking st =
     (case gs_iter n hospital_prefs student_ranking st of
        None \<Rightarrow> None
      | Some (Inl st') \<Rightarrow> Some st'
      | Some (Inr st') \<Rightarrow> gs_loop n hospital_prefs student_ranking st')"
  by pat_completeness auto

definition gs_init :: "nat \<Rightarrow> gs_state" where
  "gs_init n = \<lparr>hospital_match = replicate n (- 1), student_match = replicate n (- 1),
                next_proposal = replicate n 0, proposal_count = 0\<rparr>"

text \<open>
  \<^verbatim>\<open>gale_shapley\<close>: the arrays are initialised, the rank table of the students
  is built, the main loop runs, and \<open>hospital_match\<close> is returned.
\<close>

definition gale_shapley :: "nat \<Rightarrow> int list list \<Rightarrow> int list list \<Rightarrow> int list option" where
  "gale_shapley n hospital_prefs student_prefs =
     do { student_ranking \<leftarrow> build_rankings n student_prefs;
          st \<leftarrow> gs_loop n hospital_prefs student_ranking (gs_init n);
          Some (hospital_match st) }"

text \<open>
  The states of a run, with the proposals made so far (proposer and receiver, in the
  order they are made): the initial state, and the state after one more iteration of
  the main loop.
\<close>

inductive gs_run :: "nat \<Rightarrow> int list list \<Rightarrow> int list list \<Rightarrow> gs_state \<Rightarrow> (int \<times> int) list \<Rightarrow> bool"
  for n :: nat and hospital_prefs :: "int list list" and student_ranking :: "int list list" where
  gs_run_init: "gs_run n hospital_prefs student_ranking (gs_init n) []"
| gs_run_step:
    "gs_run n hospital_prefs student_ranking st ps \<Longrightarrow>
     find_free n (hospital_match st) (next_proposal st) [0..<n] = Some free_hospital \<Longrightarrow>
     free_hospital \<noteq> - 1 \<Longrightarrow>
     next_student hospital_prefs st free_hospital = Some student \<Longrightarrow>
     propose hospital_prefs student_ranking st free_hospital = Some st' \<Longrightarrow>
     gs_run n hospital_prefs student_ranking st' (ps @ [(free_hospital, student)])"

section \<open>The verifier\<close>

text \<open>
  A candidate pairing is a Python list whose entries are an integer or \<^verbatim>\<open>None\<close>:
  an \<^typ>\<open>int option list\<close>. The verifier's messages name a defect or a blocking
  pair; the model returns what the message names (0-indexed, where the message prints
  the index plus one).
\<close>

datatype defect = Unmatched nat | Duplicate int nat nat | Uncovered "nat set"

datatype validity = Valid | Invalid defect

datatype stability = Stable | Unstable nat nat

datatype verdict = VInvalid defect | VUnstable nat nat | VStable

text \<open>
  \<^verbatim>\<open>check_validity\<close>, its second loop and the final test on the size of the
  dictionary \<^verbatim>\<open>student_matched_to\<close> (an association list with distinct keys):
  \<^verbatim>\<open>
  for h in range(n):
      s = matching[h]
      if s in student_matched_to:
          return False, f"INVALID: Student {s + 1} is matched to both ..."
      student_matched_to[s] = h
  if len(student_matched_to) != n:
      ...
      return False, f"INVALID: Students {unmatched_list} are not matched to any hospital"
  return True, ""
  \<close>
\<close>

fun check_duplicates :: "nat \<Rightarrow> int option list \<Rightarrow> nat list \<Rightarrow> (int option \<times> nat) list \<Rightarrow> validity option" where
  "check_duplicates n matching [] student_matched_to =
     (if length student_matched_to \<noteq> n
      then Some (Invalid (Uncovered (set (filter (\<lambda>s. Some (int s) \<notin> fst ` set student_matched_to) [0..<n]))))
      else Some Valid)"
| "check_duplicates n matching (h # hs) student_matched_to =
     do { s \<leftarrow> py_get matching (int h);
          case map_of student_matched_to s of
            Some h0 \<Rightarrow> do { s' \<leftarrow> s; Some (Invalid (Duplicate s' h0 h)) }
          | None \<Rightarrow> check_duplicates n matching hs (AList.update s h student_matched_to) }"

text \<open>
  The first loop of \<^verbatim>\<open>check_validity\<close>, which continues with the second one:
  \<^verbatim>\<open>
  for h in range(n):
      if matching[h] is None:
          return False, f"INVALID: Hospital {h + 1} is not matched"
  \<close>
\<close>

fun check_unmatched :: "nat \<Rightarrow> int option list \<Rightarrow> nat list \<Rightarrow> validity option" where
  "check_unmatched n matching [] = check_duplicates n matching [0..<n] []"
| "check_unmatched n matching (h # hs) =
     do { s \<leftarrow> py_get matching (int h);
          if s = None then Some (Invalid (Unmatched h))
          else check_unmatched n matching hs }"

definition check_validity :: "nat \<Rightarrow> int option list \<Rightarrow> validity option" where
  "check_validity n matching = check_unmatched n matching [0..<n]"

text \<open>
  \<^verbatim>\<open>check_stability\<close>. The reverse mapping (\<open>smatch\<close> in the model):
  \<^verbatim>\<open>
  student_match = [None] * n
  for h in range(n):
      s = matching[h]
      student_match[s] = h
  \<close>
\<close>

fun invert_loop :: "int option list \<Rightarrow> nat list \<Rightarrow> int option list \<Rightarrow> int option list option" where
  "invert_loop matching [] smatch = Some smatch"
| "invert_loop matching (h # hs) smatch =
     do { s \<leftarrow> py_get matching (int h);
          i \<leftarrow> s;
          sm \<leftarrow> py_set smatch i (Some (int h));
          invert_loop matching hs sm }"

text \<open>
  The body of the inner loop for one pair: whether \<open>(h, s)\<close> is reported.
  \<^verbatim>\<open>
  current_student = matching[h]
  current_hospital = student_match[s]
  if current_student == s:
      continue
  if hospital_ranking[h][s] < hospital_ranking[h][current_student]:
      if student_ranking[s][h] < student_ranking[s][current_hospital]:
          return False, f"UNSTABLE: Blocking pair (Hospital {h + 1}, Student {s + 1})"
  \<close>
\<close>

definition blocks :: "int option list \<Rightarrow> int option list \<Rightarrow> int list list \<Rightarrow> int list list \<Rightarrow> nat \<Rightarrow> nat \<Rightarrow> bool option" where
  "blocks matching smatch hospital_ranking student_ranking h s =
     do { current_student \<leftarrow> py_get matching (int h);
          current_hospital \<leftarrow> py_get smatch (int s);
          if current_student = Some (int s) then Some False
          else do { hr \<leftarrow> py_get hospital_ranking (int h);
                    a \<leftarrow> py_get hr (int s);
                    hr' \<leftarrow> py_get hospital_ranking (int h);
                    cs \<leftarrow> current_student;
                    b \<leftarrow> py_get hr' cs;
                    if a < b
                    then do { sr \<leftarrow> py_get student_ranking (int s);
                              c \<leftarrow> py_get sr (int h);
                              sr' \<leftarrow> py_get student_ranking (int s);
                              ch \<leftarrow> current_hospital;
                              d \<leftarrow> py_get sr' ch;
                              Some (c < d) }
                    else Some False } }"

text \<open>The inner loop over the students: the first student reported for \<open>h\<close>, if any.\<close>

fun scan_students :: "int option list \<Rightarrow> int option list \<Rightarrow> int list list \<Rightarrow> int list list \<Rightarrow> nat \<Rightarrow> nat list \<Rightarrow> nat option option" where
  "scan_students matching smatch hospital_ranking student_ranking h [] = Some None"
| "scan_students matching smatch hospital_ranking student_ranking h (s # ss) =
     do { b \<leftarrow> blocks matching smatch hospital_ranking student_ranking h s;
          if b then Some (Some s)
          else scan_students matching smatch hospital_ranking student_ranking h ss }"

text \<open>The outer loop over the hospitals.\<close>

fun scan_hospitals :: "nat \<Rightarrow> int option list \<Rightarrow> int option list \<Rightarrow> int list list \<Rightarrow> int list list \<Rightarrow> nat list \<Rightarrow> stability option" where
  "scan_hospitals n matching smatch hospital_ranking student_ranking [] = Some Stable"
| "scan_hospitals n matching smatch hospital_ranking student_ranking (h # hs) =
     do { r \<leftarrow> scan_students matching smatch hospital_ranking student_ranking h [0..<n];
          case r of
            Some s \<Rightarrow> Some (Unstable h s)
          | None \<Rightarrow> scan_hospitals n matching smatch hospital_ranking student_ranking hs }"

definition check_stability :: "nat \<Rightarrow> int list list \<Rightarrow> int list list \<Rightarrow> int option list \<Rightarrow> stability option" where
  "check_stability n hospital_prefs student_prefs matching =
     do { smatch \<leftarrow> invert_loop matching [0..<n] (replicate n None);
          hospital_ranking \<leftarrow> build_rankings n hospital_prefs;
          student_ranking \<leftarrow> build_rankings n student_prefs;
          scan_hospitals n matching smatch hospital_ranking student_ranking [0..<n] }"

text \<open>
  The verifier's \<^verbatim>\<open>main\<close> after the inputs are read (lines 170 to 183):
  validity first, stability only for a valid pairing.
\<close>

definition verify :: "nat \<Rightarrow> int list list \<Rightarrow> int list list \<Rightarrow> int option list \<Rightarrow> verdict option" where
  "verify n hospital_prefs student_prefs matching =
     do { v \<leftarrow> check_validity n matching;
          case v of
            Invalid d \<Rightarrow> Some (VInvalid d)
          | Valid \<Rightarrow>
              do { r \<leftarrow> check_stability n hospital_prefs student_prefs matching;
                   case r of
                     Stable \<Rightarrow> Some VStable
                   | Unstable h s \<Rightarrow> Some (VUnstable h s) } }"


section \<open>Preference tables, ranks and blocking pairs\<close>

text \<open>
  A preference order is a permutation of \<open>0..n-1\<close>; a preference table holds one for
  each of the \<open>n\<close> agents of a side.
\<close>

definition permutation_of :: "nat \<Rightarrow> int list \<Rightarrow> bool" where
  "permutation_of n xs \<longleftrightarrow> length xs = n \<and> distinct xs \<and> (\<forall>x \<in> set xs. 0 \<le> x \<and> x < int n)"

definition valid_prefs :: "nat \<Rightarrow> int list list \<Rightarrow> bool" where
  "valid_prefs n prefs \<longleftrightarrow> length prefs = n \<and> (\<forall>p \<in> set prefs. permutation_of n p)"

text \<open>The rank of \<open>x\<close> in a preference order: its position, lower is better.\<close>

definition rank_of :: "int list \<Rightarrow> int \<Rightarrow> nat" where
  "rank_of xs x = length (takeWhile (\<lambda>y. y \<noteq> x) xs)"

text \<open>
  A blocking pair of a pairing, in the words of the specification: a proposer \<open>p\<close>
  and a receiver \<open>r\<close>, not matched to each other, where \<open>r\<close> ranks \<open>p\<close> strictly
  better than its current match \<open>p'\<close> and \<open>p\<close> ranks \<open>r\<close> strictly better than its
  current match \<open>r'\<close>.
\<close>

definition blocking_pair :: "nat \<Rightarrow> int list list \<Rightarrow> int list list \<Rightarrow> int option list \<Rightarrow> nat \<Rightarrow> nat \<Rightarrow> bool" where
  "blocking_pair n hospital_prefs student_prefs matching p r \<longleftrightarrow>
     p < n \<and> r < n \<and> matching ! p \<noteq> Some (int r) \<and>
     (\<exists>p' < n. \<exists>r'. matching ! p' = Some (int r) \<and> matching ! p = Some r' \<and>
        rank_of (student_prefs ! r) (int p) < rank_of (student_prefs ! r) (int p') \<and>
        rank_of (hospital_prefs ! p) (int r) < rank_of (hospital_prefs ! p) r')"


text \<open>
  What a rank table holds for a preference table: the entry of agent \<open>s\<close> at index
  \<open>x\<close> is the rank of \<open>x\<close> in the preference order of \<open>s\<close>.
\<close>

definition rank_table :: "nat \<Rightarrow> int list list \<Rightarrow> int list list \<Rightarrow> bool" where
  "rank_table n prefs rk \<longleftrightarrow>
     length rk = n \<and>
     (\<forall>s<n. length (rk ! s) = n \<and> (\<forall>x<n. rk ! s ! x = int (rank_of (prefs ! s) (int x))))"

section \<open>Invariants of the main loop\<close>

text \<open>
  The arrays have length \<open>n\<close>, a cursor lies in \<open>0..n\<close>, and a match is \<open>-1\<close> or an
  index.
\<close>

definition shape :: "nat \<Rightarrow> gs_state \<Rightarrow> bool" where
  "shape n st \<longleftrightarrow>
     length (hospital_match st) = n \<and> length (student_match st) = n \<and>
     length (next_proposal st) = n \<and>
     (\<forall>h<n. 0 \<le> next_proposal st ! h \<and> next_proposal st ! h \<le> int n) \<and>
     (\<forall>h<n. hospital_match st ! h = - 1 \<or>
             (0 \<le> hospital_match st ! h \<and> hospital_match st ! h < int n)) \<and>
     (\<forall>s<n. student_match st ! s = - 1 \<or>
             (0 \<le> student_match st ! s \<and> student_match st ! s < int n))"

text \<open>The two match arrays agree: \<open>h\<close> holds \<open>s\<close> exactly when \<open>s\<close> holds \<open>h\<close>.\<close>

definition consistent :: "nat \<Rightarrow> gs_state \<Rightarrow> bool" where
  "consistent n st \<longleftrightarrow>
     (\<forall>h<n. \<forall>s<n. (hospital_match st ! h = int s) = (student_match st ! s = int h))"

text \<open>A matched hospital holds the student it proposed to last.\<close>

definition last_proposed :: "nat \<Rightarrow> int list list \<Rightarrow> gs_state \<Rightarrow> bool" where
  "last_proposed n hospital_prefs st \<longleftrightarrow>
     (\<forall>h<n. hospital_match st ! h \<noteq> - 1 \<longrightarrow>
        0 < next_proposal st ! h \<and>
        hospital_match st ! h = hospital_prefs ! h ! (nat (next_proposal st ! h) - 1))"

text \<open>
  A student that \<open>h\<close> has proposed to is matched, to a hospital it ranks no worse
  than \<open>h\<close>.
\<close>

definition settled :: "nat \<Rightarrow> int list list \<Rightarrow> int list list \<Rightarrow> gs_state \<Rightarrow> bool" where
  "settled n hospital_prefs student_prefs st \<longleftrightarrow>
     (\<forall>h<n. \<forall>k<nat (next_proposal st ! h).
        student_match st ! nat (hospital_prefs ! h ! k) \<noteq> - 1 \<and>
        rank_of (student_prefs ! nat (hospital_prefs ! h ! k))
                (student_match st ! nat (hospital_prefs ! h ! k))
          \<le> rank_of (student_prefs ! nat (hospital_prefs ! h ! k)) (int h))"

text \<open>The counter is the sum of the cursors.\<close>

definition counted :: "gs_state \<Rightarrow> bool" where
  "counted st \<longleftrightarrow> int (proposal_count st) = sum_list (next_proposal st)"

definition gs_inv :: "nat \<Rightarrow> int list list \<Rightarrow> int list list \<Rightarrow> gs_state \<Rightarrow> bool" where
  "gs_inv n hospital_prefs student_prefs st \<longleftrightarrow>
     shape n st \<and> consistent n st \<and> last_proposed n hospital_prefs st \<and>
     settled n hospital_prefs student_prefs st \<and> counted st"

text \<open>
  The effect of one proposal by the free hospital \<open>h\<close> on the arrays, read off
  \<open>propose\<close> for indices in range: \<open>s\<close> is the student proposed to and \<open>c\<close> its
  current match.
\<close>

definition proposal_step :: "int list list \<Rightarrow> int list list \<Rightarrow> gs_state \<Rightarrow> nat \<Rightarrow> gs_state \<Rightarrow> bool" where
  "proposal_step hospital_prefs student_prefs st h st' \<longleftrightarrow>
     (let s = nat (hospital_prefs ! h ! nat (next_proposal st ! h));
          c = student_match st ! s
      in next_proposal st' = (next_proposal st)[h := next_proposal st ! h + 1] \<and>
         proposal_count st' = Suc (proposal_count st) \<and>
         (if c = - 1
          then hospital_match st' = (hospital_match st)[h := int s] \<and>
               student_match st' = (student_match st)[s := int h]
          else if rank_of (student_prefs ! s) (int h) < rank_of (student_prefs ! s) c
          then hospital_match st' = (hospital_match st)[nat c := - 1, h := int s] \<and>
               student_match st' = (student_match st)[s := int h]
          else hospital_match st' = hospital_match st \<and>
               student_match st' = student_match st))"

text \<open>
  A stable matching, in the words of the specification: a perfect matching (a
  permutation of \<open>0..n-1\<close>) with no blocking pair.
\<close>

definition stable_matching :: "nat \<Rightarrow> int list list \<Rightarrow> int list list \<Rightarrow> int list \<Rightarrow> bool" where
  "stable_matching n hospital_prefs student_prefs m \<longleftrightarrow>
     permutation_of n m \<and>
     (\<forall>p<n. \<forall>r<n. \<not> blocking_pair n hospital_prefs student_prefs (map Some m) p r)"

text \<open>
  A student that has turned \<open>h\<close> down is matched to \<open>h\<close> in no stable matching.
\<close>

definition unattainable :: "nat \<Rightarrow> int list list \<Rightarrow> int list list \<Rightarrow> gs_state \<Rightarrow> bool" where
  "unattainable n hospital_prefs student_prefs st \<longleftrightarrow>
     (\<forall>h<n. \<forall>k<nat (next_proposal st ! h).
        hospital_prefs ! h ! k \<noteq> hospital_match st ! h \<longrightarrow>
        (\<forall>m. stable_matching n hospital_prefs student_prefs m \<longrightarrow> m ! h \<noteq> hospital_prefs ! h ! k))"

section \<open>Reading and writing lists at a natural index\<close>

lemma py_get_nat: "py_get xs (int h) = (if h < length xs then Some (xs ! h) else None)"
  by (simp add: py_get_def)

lemma py_set_nat: "py_set xs (int h) v = (if h < length xs then Some (xs[h := v]) else None)"
  by (simp add: py_set_def)


lemma all_less_2: "(\<forall>h<2::nat. P h) \<longleftrightarrow> P 0 \<and> P 1"
  by (auto simp: less_2_cases_iff)


section \<open>Termination of the main loop\<close>

lemma find_free_found:
  "find_free n hm np hs = Some f \<Longrightarrow> f \<noteq> - 1 \<Longrightarrow>
   \<exists>h \<in> set hs. f = int h \<and> h < length hm \<and> hm ! h = - 1 \<and> h < length np \<and> np ! h < int n"
  by (induction hs) (auto simp: py_get_nat split: bind_splits if_splits)

lemma propose_cursor:
  "propose hp sr st (int h) = Some st' \<Longrightarrow>
   h < length (next_proposal st) \<and>
   next_proposal st' = (next_proposal st)[h := next_proposal st ! h + 1]"
  by (auto simp: propose_def py_get_nat py_set_nat Let_def split: bind_splits if_splits)

lemma sum_list_update_less:
  "h < length xs \<Longrightarrow> f v < f (xs ! h) \<Longrightarrow> sum_list (map f (xs[h := v])) < sum_list (map (f::_ \<Rightarrow> nat) xs)"
proof (induction xs arbitrary: h)
  case Nil then show ?case by simp
next
  case (Cons x xs) then show ?case by (cases h) auto
qed

lemma gs_iter_remaining:
  assumes "gs_iter n hp sr st = Some (Inr st')"
  shows "remaining n st' < remaining n st"
proof -
  from assms obtain f where f: "find_free n (hospital_match st) (next_proposal st) [0..<n] = Some f"
     "f \<noteq> - 1" "propose hp sr st f = Some st'"
    by (auto simp: gs_iter_def split: bind_splits if_splits)
  from find_free_found[OF f(1,2)] obtain h where h: "f = int h" "h < length (next_proposal st)"
     "next_proposal st ! h < int n" by auto
  from propose_cursor[OF f(3)[unfolded h(1)]]
  have "next_proposal st' = (next_proposal st)[h := next_proposal st ! h + 1]" by simp
  then show ?thesis using h(2,3)
    by (simp add: remaining_def sum_list_update_less)
qed

termination gs_loop
  by (relation "measure (\<lambda>(n, hp, sr, st). remaining n st)") (auto simp: gs_iter_remaining)

section \<open>The validity check\<close>

lemma check_unmatched_none:
  "\<forall>h \<in> set hs. h < length m \<and> m ! h \<noteq> None \<Longrightarrow>
   check_unmatched n m hs = check_duplicates n m [0..<n] []"
  by (induction hs) (auto simp: py_get_nat)

lemma check_unmatched_found:
  "\<forall>h \<in> set hs. h < length m \<Longrightarrow> \<exists>h \<in> set hs. m ! h = None \<Longrightarrow>
   \<exists>h \<in> set hs. m ! h = None \<and> check_unmatched n m hs = Some (Invalid (Unmatched h))"
  by (induction hs) (auto simp: py_get_nat)

lemma check_unmatched_cases:
  "check_unmatched n m hs = None \<or> (\<exists>h. check_unmatched n m hs = Some (Invalid (Unmatched h)))
   \<or> check_unmatched n m hs = check_duplicates n m [0..<n] []"
  by (induction hs) (auto simp: py_get_nat)

lemma length_alist_update:
  "k \<notin> fst ` set al \<Longrightarrow> length (AList.update k v al) = Suc (length al)"
proof -
  assume "k \<notin> fst ` set al"
  then have "map fst (AList.update k v al) = map fst al @ [k]"
    by (simp add: update_keys)
  then have "length (map fst (AList.update k v al)) = Suc (length al)" by simp
  then show ?thesis by simp
qed

lemma check_duplicates_not_uncovered:
  "length d + length hs = n \<Longrightarrow> check_duplicates n m hs d \<noteq> Some (Invalid (Uncovered u))"
proof (induction hs arbitrary: d)
  case Nil
  then show ?case by simp
next
  case (Cons h hs)
  show ?case
  proof (cases "py_get m (int h)")
    case None
    then show ?thesis by simp
  next
    case (Some s)
    show ?thesis
    proof (cases "map_of d s")
      case None
      then have "s \<notin> fst ` set d" by (simp add: map_of_eq_None_iff)
      then have "length (AList.update s h d) + length hs = n"
        using Cons.prems by (simp add: length_alist_update)
      from Cons.IH[OF this] show ?thesis using Some None by simp
    next
      case (Some h0)
      then show ?thesis using \<open>py_get m (int h) = Some s\<close> by (auto split: bind_splits)
    qed
  qed
qed

lemma check_duplicates_valid:
  "length d + length hs = n \<Longrightarrow> \<forall>h \<in> set hs. h < length m \<Longrightarrow>
   distinct (map ((!) m) hs) \<Longrightarrow> \<forall>h \<in> set hs. m ! h \<notin> fst ` set d \<Longrightarrow>
   check_duplicates n m hs d = Some Valid"
proof (induction hs arbitrary: d)
  case Nil
  then show ?case by simp
next
  case (Cons h hs)
  have nn: "map_of d (m ! h) = None" using Cons.prems(4) by (simp add: map_of_eq_None_iff)
  have "length (AList.update (m ! h) h d) + length hs = n"
    using Cons.prems(1,4) by (simp add: length_alist_update)
  moreover have "\<forall>h' \<in> set hs. m ! h' \<notin> fst ` set (AList.update (m ! h) h d)"
    using Cons.prems(3,4) by (auto simp: dom_update) (metis imageI)
  ultimately have "check_duplicates n m hs (AList.update (m ! h) h d) = Some Valid"
    using Cons.IH Cons.prems(2,3) by simp
  then show ?case using Cons.prems(2) nn by (simp add: py_get_nat)
qed

lemma check_duplicates_found:
  assumes "i \<le> n" "n \<le> length m" "\<forall>h<n. m ! h \<noteq> None"
    and "\<forall>k v. map_of d k = Some v \<longleftrightarrow> v < i \<and> m ! v = k"
    and "\<exists>h2<n. \<exists>h1<h2. m ! h1 = m ! h2"
  shows "\<exists>s h1 h2. check_duplicates n m [i..<n] d = Some (Invalid (Duplicate s h1 h2)) \<and>
           h1 < h2 \<and> h2 < n \<and> m ! h1 = Some s \<and> m ! h2 = Some s \<and>
           (\<forall>h<h2. \<forall>h'<h. m ! h' \<noteq> m ! h)"
  using assms
proof (induction "n - i" arbitrary: i d)
  case 0
  then have "i = n" by simp
  from "0.prems"(5) obtain h1 h2 where h: "h2 < n" "h1 < h2" "m ! h1 = m ! h2" by blast
  have "map_of d (m ! h1) = Some h1" using "0.prems"(4) h \<open>i = n\<close> by simp
  moreover have "map_of d (m ! h1) = Some h2" using "0.prems"(4) h \<open>i = n\<close> by simp
  ultimately show ?case using h(2) by simp
next
  case (Suc k)
  then have lt: "i < n" by simp
  have pre: "\<forall>h<i. \<forall>h'<h. m ! h' \<noteq> m ! h"
  proof (intro allI impI notI)
    fix h h' assume a: "h < i" "h' < h" "m ! h' = m ! h"
    have "map_of d (m ! h) = Some h" using Suc.prems(4) a by simp
    moreover have "map_of d (m ! h) = Some h'" using Suc.prems(4) a by simp
    ultimately show False using a(2) by simp
  qed
  have get: "py_get m (int i) = Some (m ! i)" using lt Suc.prems(2) by (simp add: py_get_nat)
  obtain s where s: "m ! i = Some s" using Suc.prems(3) lt by auto
  show ?case
  proof (cases "map_of d (m ! i)")
    case (Some h0)
    then have h0: "h0 < i" "m ! h0 = m ! i" using Suc.prems(4) by auto
    have "check_duplicates n m [i..<n] d = Some (Invalid (Duplicate s h0 i))"
      using lt get Some s by (simp add: upt_conv_Cons)
    moreover have "\<forall>h<i. \<forall>h'<h. m ! h' \<noteq> m ! h" by (rule pre)
    ultimately show ?thesis using h0 lt s by auto
  next
    case None
    let ?d = "AList.update (m ! i) i d"
    have step: "check_duplicates n m [i..<n] d = check_duplicates n m [Suc i..<n] ?d"
      using lt get None by (simp add: upt_conv_Cons)
    have inv: "\<forall>k v. map_of ?d k = Some v \<longleftrightarrow> v < Suc i \<and> m ! v = k"
    proof (intro allI)
      fix k v
      show "map_of ?d k = Some v \<longleftrightarrow> v < Suc i \<and> m ! v = k"
      proof (cases "k = m ! i")
        case True
        have "\<not> (v < i \<and> m ! v = m ! i)"
        proof
          assume "v < i \<and> m ! v = m ! i"
          then have "map_of d (m ! i) = Some v" using Suc.prems(4) by blast
          then show False using None by simp
        qed
        then show ?thesis using True by (auto simp: update_conv' less_Suc_eq)
      next
        case False
        then show ?thesis using Suc.prems(4) by (auto simp: update_conv' less_Suc_eq)
      qed
    qed
    have "k = n - Suc i" using Suc.hyps(2) by simp
    from Suc.hyps(1)[OF this _ Suc.prems(2,3) inv Suc.prems(5)] lt
    show ?thesis using step by simp
  qed
qed

text \<open>
  C7: the third branch of \<^verbatim>\<open>check_validity\<close> is never entered. For a pairing of
  length \<open>n\<close> whose entries lie in \<open>0..n-1\<close>, where every proposer has a receiver
  and no two proposers have the same one, every receiver is covered (the matched
  receivers are exactly the \<open>n\<close> indices) and the check returns valid. More generally,
  no input at all makes the check report uncovered receivers.
\<close>

theorem uncovered_branch_unreachable:
  assumes "length m = n"
    and "\<forall>h<n. m ! h = None \<or> (\<exists>r. m ! h = Some r \<and> 0 \<le> r \<and> r < int n)"
    and "\<forall>h<n. m ! h \<noteq> None"
    and "\<forall>h2<n. \<forall>h1<h2. m ! h1 \<noteq> m ! h2"
  shows "check_validity n m = Some Valid \<and> set m = Some ` int ` {0..<n} \<and> card (set m) = n \<and>
         (\<forall>n' m' u. check_validity n' m' \<noteq> Some (Invalid (Uncovered u)))"
proof -
  have dist: "distinct m"
    unfolding distinct_conv_nth
  proof (intro allI impI)
    fix i j assume "i < length m" "j < length m" "i \<noteq> j"
    then show "m ! i \<noteq> m ! j"
      using assms(1,4) by (cases "i < j") (auto simp: not_less le_less dest: not_sym)
  qed
  have "map ((!) m) [0..<n] = m" using assms(1) map_nth[of m] by simp
  then have "distinct (map ((!) m) [0..<n])" using dist by simp
  then have "check_duplicates n m [0..<n] [] = Some Valid"
    using assms(1) by (intro check_duplicates_valid) auto
  moreover have "check_unmatched n m [0..<n] = check_duplicates n m [0..<n] []"
    using assms(1,3) by (intro check_unmatched_none) auto
  ultimately have valid: "check_validity n m = Some Valid" by (simp add: check_validity_def)
  have sub: "set m \<subseteq> Some ` int ` {0..<n}"
  proof
    fix x assume "x \<in> set m"
    then obtain h where h: "h < n" "x = m ! h" using assms(1) by (auto simp: in_set_conv_nth)
    with assms(2,3) obtain r where "x = Some r" "0 \<le> r" "r < int n" by metis
    then have "x = Some (int (nat r))" "nat r \<in> {0..<n}" by auto
    then show "x \<in> Some ` int ` {0..<n}" by blast
  qed
  have cardm: "card (set m) = n" using dist assms(1) by (simp add: distinct_card)
  have "card (Some ` int ` {0..<n}) = n" by (simp add: card_image inj_on_def)
  with sub cardm have seteq: "set m = Some ` int ` {0..<n}"
    by (intro card_subset_eq) auto
  have never: "\<forall>n' m' u. check_validity n' m' \<noteq> Some (Invalid (Uncovered u))"
  proof (intro allI)
    fix n' m' u
    have "check_duplicates n' m' [0..<n'] [] \<noteq> Some (Invalid (Uncovered u))"
      by (rule check_duplicates_not_uncovered) simp
    then show "check_validity n' m' \<noteq> Some (Invalid (Uncovered u))"
      using check_unmatched_cases[of n' m' "[0..<n']"] by (auto simp: check_validity_def)
  qed
  from valid seteq cardm never show ?thesis by blast
qed

theorem uncovered_branch_unreachable_witness:
  "check_validity 2 [Some 1, Some 0] = Some Valid \<and>
   set [Some 1, Some (0::int)] = Some ` int ` {0..<2}"
  using uncovered_branch_unreachable[of "[Some 1, Some 0]" 2]
  by (simp add: all_less_2)

text \<open>
  C8, as stated, fails where a proposer is unmatched as well: the first loop returns
  before the duplicate is looked for, and the message names the unmatched proposer.
\<close>

theorem duplicate_receiver_counterexample:
  "check_validity 3 [Some 1, None, Some 1] = Some (Invalid (Unmatched 1))"
  by code_simp

text \<open>
  C8, amended: when every proposer has a receiver and two proposers have the same one,
  \<^verbatim>\<open>check_validity\<close> returns invalid and names a receiver \<open>s\<close> and two proposers
  \<open>h1 < h2\<close> that both map to \<open>s\<close>, where \<open>h2\<close> is the first proposer (ascending)
  whose receiver is already taken. For \<open>n = 2\<close>, the pairing \<open>{0:1, 1:1}\<close> is
  reported with receiver \<open>1\<close> and proposers \<open>0\<close> and \<open>1\<close>.
\<close>

theorem duplicate_receiver_invalid:
  assumes "n \<le> length m" "\<forall>h<n. m ! h \<noteq> None" "\<exists>h2<n. \<exists>h1<h2. m ! h1 = m ! h2"
  shows "\<exists>s h1 h2. check_validity n m = Some (Invalid (Duplicate s h1 h2)) \<and>
           h1 < h2 \<and> h2 < n \<and> m ! h1 = Some s \<and> m ! h2 = Some s \<and>
           (\<forall>h<h2. \<forall>h'<h. m ! h' \<noteq> m ! h)"
proof -
  have "check_unmatched n m [0..<n] = check_duplicates n m [0..<n] []"
    using assms(1,2) by (intro check_unmatched_none) auto
  moreover have "\<forall>k v. map_of ([] :: (int option \<times> nat) list) k = Some v \<longleftrightarrow> v < 0 \<and> m ! v = k"
    by simp
  from check_duplicates_found[OF _ assms(1,2) this assms(3)]
  have "\<exists>s h1 h2. check_duplicates n m [0..<n] [] = Some (Invalid (Duplicate s h1 h2)) \<and>
           h1 < h2 \<and> h2 < n \<and> m ! h1 = Some s \<and> m ! h2 = Some s \<and>
           (\<forall>h<h2. \<forall>h'<h. m ! h' \<noteq> m ! h)" by simp
  ultimately show ?thesis by (simp add: check_validity_def)
qed

theorem duplicate_receiver_invalid_witness:
  "check_validity 2 [Some 1, Some 1] = Some (Invalid (Duplicate 1 0 1))"
proof -
  have "\<exists>h2<2::nat. \<exists>h1<h2. [Some (1::int), Some 1] ! h1 = [Some 1, Some 1] ! h2"
    by (intro exI[of _ 1] exI[of _ 0]) simp
  from duplicate_receiver_invalid[of 2 "[Some 1, Some 1]", OF _ _ this]
  obtain s h1 h2 where r: "check_validity 2 [Some 1, Some 1] = Some (Invalid (Duplicate s h1 h2))"
    "h1 < h2" "h2 < 2" "[Some 1, Some 1] ! h1 = Some s"
    by (auto simp: all_less_2)
  then have "h1 = 0" "h2 = 1" by auto
  with r show ?thesis by simp
qed

section \<open>Ranks and rank tables\<close>

lemma py_get_nonneg:
  "0 \<le> i \<Longrightarrow> py_get xs i = (if nat i < length xs then Some (xs ! nat i) else None)"
  by (auto simp: py_get_def Let_def)

lemma py_set_nonneg:
  "0 \<le> i \<Longrightarrow> py_set xs i v = (if nat i < length xs then Some (xs[nat i := v]) else None)"
  by (auto simp: py_set_def Let_def)

lemma permutation_of_set:
  assumes "permutation_of n p"
  shows "set p = int ` {0..<n}"
proof -
  have sub: "set p \<subseteq> int ` {0..<n}"
  proof
    fix x assume "x \<in> set p"
    then have "0 \<le> x" "x < int n" using assms by (auto simp: permutation_of_def)
    then have "x = int (nat x)" "nat x \<in> {0..<n}" by auto
    then show "x \<in> int ` {0..<n}" by blast
  qed
  have "card (set p) = n" using assms by (simp add: permutation_of_def distinct_card)
  moreover have "card (int ` {0..<n}) = n" by (simp add: card_image)
  ultimately show ?thesis using sub by (intro card_subset_eq) auto
qed

lemma permutation_of_mem:
  "permutation_of n p \<Longrightarrow> x < n \<Longrightarrow> int x \<in> set p"
  by (simp add: permutation_of_set)

lemma rank_of_nth:
  "distinct xs \<Longrightarrow> k < length xs \<Longrightarrow> rank_of xs (xs ! k) = k"
proof (induction xs arbitrary: k)
  case Nil then show ?case by simp
next
  case (Cons x xs)
  then show ?case by (cases k) (auto simp: rank_of_def)
qed

lemma rank_of_less: "x \<in> set xs \<Longrightarrow> rank_of xs x < length xs"
  by (induction xs) (auto simp: rank_of_def)

lemma nth_rank_of: "x \<in> set xs \<Longrightarrow> xs ! rank_of xs x = x"
  by (induction xs) (auto simp: rank_of_def)

lemma rank_of_inj:
  "x \<in> set xs \<Longrightarrow> y \<in> set xs \<Longrightarrow> rank_of xs x = rank_of xs y \<Longrightarrow> x = y"
  by (metis nth_rank_of)

lemma fill_ranking_ok:
  assumes "distinct xs" "\<forall>x \<in> set xs. 0 \<le> x \<and> x < int (length r0)"
  shows "\<exists>r. fill_ranking r0 k0 xs = Some r \<and> length r = length r0 \<and>
           (\<forall>i<length xs. r ! nat (xs ! i) = k0 + int i) \<and>
           (\<forall>j<length r0. int j \<notin> set xs \<longrightarrow> r ! j = r0 ! j)"
  using assms
proof (induction xs arbitrary: r0 k0)
  case Nil
  then show ?case by simp
next
  case (Cons x xs)
  let ?r1 = "r0[nat x := k0]"
  have x: "0 \<le> x" "nat x < length r0" using Cons.prems(2) by auto
  have set1: "py_set r0 x k0 = Some ?r1" using x by (simp add: py_set_nonneg)
  have "\<forall>y \<in> set xs. 0 \<le> y \<and> y < int (length ?r1)" using Cons.prems(2) by simp
  from Cons.IH[OF _ this, of "k0 + 1"] Cons.prems(1)
  obtain r where r: "fill_ranking ?r1 (k0 + 1) xs = Some r" "length r = length r0"
    "\<forall>i<length xs. r ! nat (xs ! i) = k0 + 1 + int i"
    "\<forall>j<length r0. int j \<notin> set xs \<longrightarrow> r ! j = ?r1 ! j" by auto
  have "int (nat x) \<notin> set xs" using x(1) Cons.prems(1) by simp
  then have rx: "r ! nat x = k0" using r(4) x(2) by simp
  have a: "\<forall>i<length (x # xs). r ! nat ((x # xs) ! i) = k0 + int i"
  proof (intro allI impI)
    fix i assume "i < length (x # xs)"
    then show "r ! nat ((x # xs) ! i) = k0 + int i"
      using rx r(3) by (cases i) auto
  qed
  have b: "\<forall>j<length r0. int j \<notin> set (x # xs) \<longrightarrow> r ! j = r0 ! j"
  proof (intro allI impI)
    fix j assume j: "j < length r0" "int j \<notin> set (x # xs)"
    then have "j \<noteq> nat x" using x(1) by auto
    then show "r ! j = r0 ! j" using r(4) j by simp
  qed
  show ?case using set1 r(1,2) a b by simp
qed

lemma fill_ranking_permutation:
  assumes "permutation_of n p"
  shows "\<exists>r. fill_ranking (replicate n 0) 0 p = Some r \<and> length r = n \<and>
           (\<forall>x<n. r ! x = int (rank_of p (int x)))"
proof -
  have d: "distinct p" and len: "length p = n" using assms by (auto simp: permutation_of_def)
  have "\<forall>x \<in> set p. 0 \<le> x \<and> x < int (length (replicate n (0::int)))"
    using assms by (simp add: permutation_of_def)
  from fill_ranking_ok[OF d this, of 0]
  obtain r where r: "fill_ranking (replicate n 0) 0 p = Some r" "length r = n"
    "\<forall>i<length p. r ! nat (p ! i) = int i" by auto
  have "\<forall>x<n. r ! x = int (rank_of p (int x))"
  proof (intro allI impI)
    fix x assume "x < n"
    then have m: "int x \<in> set p" using assms by (rule permutation_of_mem[rotated])
    then have "rank_of p (int x) < length p" "p ! rank_of p (int x) = int x"
      by (simp_all add: rank_of_less nth_rank_of)
    then show "r ! x = int (rank_of p (int x))" using r(3) by fastforce
  qed
  then show ?thesis using r(1,2) by simp
qed

lemma rankings_loop_ok:
  assumes "\<forall>s \<in> set ss. s < length prefs \<and> permutation_of n (prefs ! s)"
  shows "rankings_loop n prefs ss acc =
           Some (acc @ map (\<lambda>s. the (fill_ranking (replicate n 0) 0 (prefs ! s))) ss)"
  using assms
proof (induction ss arbitrary: acc)
  case Nil
  then show ?case by simp
next
  case (Cons s ss)
  then have "permutation_of n (prefs ! s)" "s < length prefs" by auto
  from fill_ranking_permutation[OF this(1)] this(2) Cons.IH Cons.prems
  show ?case by (auto simp: py_get_nat)
qed

lemma valid_prefs_nth: "valid_prefs n prefs \<Longrightarrow> s < n \<Longrightarrow> permutation_of n (prefs ! s)"
  by (simp add: valid_prefs_def)

lemma build_rankings_ok:
  assumes "valid_prefs n prefs"
  shows "\<exists>rk. build_rankings n prefs = Some rk \<and> rank_table n prefs rk"
proof -
  let ?F = "\<lambda>s. the (fill_ranking (replicate n 0) 0 (prefs ! s))"
  have len: "length prefs = n" using assms by (simp add: valid_prefs_def)
  have "\<forall>s \<in> set [0..<n]. s < length prefs \<and> permutation_of n (prefs ! s)"
    using assms len by (simp add: valid_prefs_nth)
  from rankings_loop_ok[OF this, of "[]"]
  have rk: "build_rankings n prefs = Some (map ?F [0..<n])" by (simp add: build_rankings_def)
  have "rank_table n prefs (map ?F [0..<n])"
    unfolding rank_table_def
  proof (intro conjI allI impI)
    show "length (map ?F [0..<n]) = n" by simp
  next
    fix s assume s: "s < n"
    from fill_ranking_permutation[OF valid_prefs_nth[OF assms s]]
    show "length (map ?F [0..<n] ! s) = n" using s by auto
  next
    fix s x assume s: "s < n" and x: "x < n"
    from fill_ranking_permutation[OF valid_prefs_nth[OF assms s]] x
    show "map ?F [0..<n] ! s ! x = int (rank_of (prefs ! s) (int x))" using s by auto
  qed
  with rk show ?thesis by blast
qed

section \<open>One proposal preserves the invariants\<close>

lemma find_free_total:
  "\<forall>h \<in> set hs. h < length hm \<and> h < length np \<Longrightarrow> \<exists>f. find_free n hm np hs = Some f"
  by (induction hs) (auto simp: py_get_nat)

lemma find_free_exhausted:
  "find_free n hm np hs = Some (- 1) \<Longrightarrow> \<forall>h \<in> set hs. h < length hm \<and> h < length np \<Longrightarrow>
   \<forall>h \<in> set hs. hm ! h \<noteq> - 1 \<or> \<not> np ! h < int n"
  by (induction hs) (auto simp: py_get_nat split: if_splits)

lemma valid_prefs_entry:
  assumes "valid_prefs n hp" "h < n" "k < n"
  shows "0 \<le> hp ! h ! k \<and> hp ! h ! k < int n \<and> nat (hp ! h ! k) < n"
proof -
  have p: "permutation_of n (hp ! h)" using assms(1,2) by (rule valid_prefs_nth)
  then have "hp ! h ! k \<in> set (hp ! h)" using assms(3) by (simp add: permutation_of_def)
  then show ?thesis using p by (auto simp: permutation_of_def)
qed

lemma rank_table_entry:
  assumes "rank_table n sp sr" "s < n" "0 \<le> x" "x < int n"
  shows "py_get sr (int s) = Some (sr ! s)" "py_get (sr ! s) x = Some (int (rank_of (sp ! s) x))"
proof -
  show "py_get sr (int s) = Some (sr ! s)" using assms(1,2) by (simp add: rank_table_def py_get_nat)
  have "nat x < n" using assms(3,4) by simp
  then have "sr ! s ! nat x = int (rank_of (sp ! s) (int (nat x)))" "length (sr ! s) = n"
    using assms(1,2) by (simp_all add: rank_table_def)
  then show "py_get (sr ! s) x = Some (int (rank_of (sp ! s) x))"
    using assms(3) \<open>nat x < n\<close> by (simp add: py_get_nonneg)
qed

lemma next_student_valid:
  assumes "shape n st" "valid_prefs n hp" "h < n" "next_proposal st ! h < int n"
  shows "next_student hp st (int h) = Some (hp ! h ! nat (next_proposal st ! h))"
proof -
  have k: "0 \<le> next_proposal st ! h" "length (next_proposal st) = n"
    using assms(1,3) by (auto simp: shape_def)
  have "length hp = n" using assms(2) by (simp add: valid_prefs_def)
  moreover have "length (hp ! h) = n"
    using valid_prefs_nth[OF assms(2,3)] by (simp add: permutation_of_def)
  ultimately show ?thesis using k assms(3,4)
    by (simp add: next_student_def py_get_nat py_get_nonneg)
qed

lemma propose_valid:
  assumes sh: "shape n st" and hp: "valid_prefs n hp" and sr: "rank_table n sp sr"
    and h: "h < n" and k: "next_proposal st ! h < int n"
  shows "\<exists>st'. propose hp sr st (int h) = Some st' \<and> proposal_step hp sp st h st'"
proof -
  let ?k = "next_proposal st ! h"
  let ?x = "hp ! h ! nat ?k"
  let ?s = "nat ?x"
  let ?c = "student_match st ! ?s"
  have len: "length (hospital_match st) = n" "length (student_match st) = n"
    "length (next_proposal st) = n" using sh by (auto simp: shape_def)
  have k0: "0 \<le> ?k" using sh h by (auto simp: shape_def)
  have x: "0 \<le> ?x" "?x < int n" "?s < n"
    using valid_prefs_entry[OF hp h, of "nat ?k"] k k0 by auto
  have ns: "next_student hp st (int h) = Some ?x" by (rule next_student_valid[OF sh hp h k])
  have getk: "py_get (next_proposal st) (int h) = Some ?k" using len h by (simp add: py_get_nat)
  have setk: "py_set (next_proposal st) (int h) (?k + 1) = Some ((next_proposal st)[h := ?k + 1])"
    using len h by (simp add: py_set_nat)
  have getc: "py_get (student_match st) ?x = Some ?c" using x len by (simp add: py_get_nonneg)
  have sets: "py_set (student_match st) ?x (int h) = Some ((student_match st)[?s := int h])"
    using x len by (simp add: py_set_nonneg)
  have seth: "\<And>hm. length hm = n \<Longrightarrow> py_set hm (int h) ?x = Some (hm[h := ?x])"
    using h by (simp add: py_set_nat)
  show ?thesis
  proof (cases "?c = - 1")
    case True
    let ?st' = "st\<lparr>next_proposal := (next_proposal st)[h := ?k + 1],
                    proposal_count := proposal_count st + 1,
                    hospital_match := (hospital_match st)[h := ?x],
                    student_match := (student_match st)[?s := int h]\<rparr>"
    have "propose hp sr st (int h) = Some ?st'"
      using ns getk setk getc sets seth[OF len(1)] True by (simp add: propose_def)
    moreover have "proposal_step hp sp st h ?st'"
      using True x(1) by (simp add: proposal_step_def)
    ultimately show ?thesis by blast
  next
    case False
    then have c: "0 \<le> ?c" "?c < int n" using sh x(3) by (auto simp: shape_def)
    have rk: "py_get sr ?x = Some (sr ! ?s)"
      "py_get (sr ! ?s) (int h) = Some (int (rank_of (sp ! ?s) (int h)))"
      "py_get (sr ! ?s) ?c = Some (int (rank_of (sp ! ?s) ?c))"
      using rank_table_entry[OF sr x(3)] rank_table_entry(1)[OF sr x(3), of 0] c h x(1) by auto
    show ?thesis
    proof (cases "rank_of (sp ! ?s) (int h) < rank_of (sp ! ?s) ?c")
      case True
      let ?st' = "st\<lparr>next_proposal := (next_proposal st)[h := ?k + 1],
                    proposal_count := proposal_count st + 1,
                    hospital_match := (hospital_match st)[nat ?c := - 1, h := ?x],
                    student_match := (student_match st)[?s := int h]\<rparr>"
      have "py_set (hospital_match st) ?c (- 1) = Some ((hospital_match st)[nat ?c := - 1])"
        using c len by (simp add: py_set_nonneg)
      then have "propose hp sr st (int h) = Some ?st'"
        using ns getk setk getc sets seth[of "(hospital_match st)[nat ?c := - 1]"] len
          \<open>?c \<noteq> - 1\<close> rk True by (simp add: propose_def)
      moreover have "proposal_step hp sp st h ?st'"
        using True \<open>?c \<noteq> - 1\<close> x(1) by (simp add: proposal_step_def)
      ultimately show ?thesis by blast
    next
      case False
      let ?st' = "st\<lparr>next_proposal := (next_proposal st)[h := ?k + 1],
                    proposal_count := proposal_count st + 1\<rparr>"
      have "propose hp sr st (int h) = Some ?st'"
        using ns getk setk getc \<open>?c \<noteq> - 1\<close> rk False by (simp add: propose_def)
      moreover have "proposal_step hp sp st h ?st'"
        using False \<open>?c \<noteq> - 1\<close> by (simp add: proposal_step_def)
      ultimately show ?thesis by blast
    qed
  qed
qed

lemma proposal_step_cases:
  assumes sh: "shape n st" and hp: "valid_prefs n hp"
    and h: "h < n" and k: "next_proposal st ! h < int n"
    and step: "proposal_step hp sp st h st'"
  obtains
    (accept) s where "s < n" "hp ! h ! nat (next_proposal st ! h) = int s"
      "student_match st ! s = - 1"
      "hospital_match st' = (hospital_match st)[h := int s]"
      "student_match st' = (student_match st)[s := int h]"
  | (swap) s c where "s < n" "c < n" "hp ! h ! nat (next_proposal st ! h) = int s"
      "student_match st ! s = int c"
      "rank_of (sp ! s) (int h) < rank_of (sp ! s) (int c)"
      "hospital_match st' = (hospital_match st)[c := - 1, h := int s]"
      "student_match st' = (student_match st)[s := int h]"
  | (reject) s c where "s < n" "c < n" "hp ! h ! nat (next_proposal st ! h) = int s"
      "student_match st ! s = int c"
      "\<not> rank_of (sp ! s) (int h) < rank_of (sp ! s) (int c)"
      "hospital_match st' = hospital_match st"
      "student_match st' = student_match st"
proof -
  let ?x = "hp ! h ! nat (next_proposal st ! h)"
  let ?s = "nat ?x"
  let ?c = "student_match st ! ?s"
  have k0: "0 \<le> next_proposal st ! h" using sh h by (auto simp: shape_def)
  have x: "0 \<le> ?x" "?x < int n" "?s < n"
    using valid_prefs_entry[OF hp h, of "nat (next_proposal st ! h)"] k k0 by auto
  have xs: "?x = int ?s" using x(1) by simp
  have eff: "if ?c = - 1
          then hospital_match st' = (hospital_match st)[h := int ?s] \<and>
               student_match st' = (student_match st)[?s := int h]
          else if rank_of (sp ! ?s) (int h) < rank_of (sp ! ?s) ?c
          then hospital_match st' = (hospital_match st)[nat ?c := - 1, h := int ?s] \<and>
               student_match st' = (student_match st)[?s := int h]
          else hospital_match st' = hospital_match st \<and>
               student_match st' = student_match st"
    using step unfolding proposal_step_def Let_def by blast
  show thesis
  proof (cases "?c = - 1")
    case True
    have "hospital_match st' = (hospital_match st)[h := int ?s]"
      "student_match st' = (student_match st)[?s := int h]"
      using eff True by simp_all
    then show ?thesis using x(3) xs True by (rule accept[rotated 3])
  next
    case False
    then have c: "0 \<le> ?c" "?c < int n" using sh x(3) by (auto simp: shape_def)
    then have cn: "?c = int (nat ?c)" "nat ?c < n" by auto
    show ?thesis
    proof (cases "rank_of (sp ! ?s) (int h) < rank_of (sp ! ?s) ?c")
      case True
      have e: "hospital_match st' = (hospital_match st)[nat ?c := - 1, h := int ?s]"
        "student_match st' = (student_match st)[?s := int h]"
        using eff True False by simp_all
      have r: "rank_of (sp ! ?s) (int h) < rank_of (sp ! ?s) (int (nat ?c))"
        using True c(1) by simp
      show ?thesis by (rule swap[OF x(3) cn(2) xs cn(1) r e])
    next
      case nr: False
      have e: "hospital_match st' = hospital_match st" "student_match st' = student_match st"
        using eff nr False by simp_all
      have r: "\<not> rank_of (sp ! ?s) (int h) < rank_of (sp ! ?s) (int (nat ?c))"
        using nr c(1) by simp
      show ?thesis by (rule reject[OF x(3) cn(2) xs cn(1) r e])
    qed
  qed
qed

lemma proposal_step_cursor:
  "proposal_step hp sp st h st' \<Longrightarrow>
   next_proposal st' = (next_proposal st)[h := next_proposal st ! h + 1] \<and>
   proposal_count st' = Suc (proposal_count st)"
  by (simp add: proposal_step_def Let_def)

lemma shape_len:
  "shape n st \<Longrightarrow> length (hospital_match st) = n"
  "shape n st \<Longrightarrow> length (student_match st) = n"
  "shape n st \<Longrightarrow> length (next_proposal st) = n"
  by (simp_all add: shape_def)

lemma shape_cursor: "shape n st \<Longrightarrow> h < n \<Longrightarrow> 0 \<le> next_proposal st ! h \<and> next_proposal st ! h \<le> int n"
  by (simp add: shape_def)

lemma shape_hm:
  "shape n st \<Longrightarrow> h < n \<Longrightarrow>
   hospital_match st ! h = - 1 \<or> (0 \<le> hospital_match st ! h \<and> hospital_match st ! h < int n)"
  by (simp add: shape_def)

lemma shape_sm:
  "shape n st \<Longrightarrow> s < n \<Longrightarrow>
   student_match st ! s = - 1 \<or> (0 \<le> student_match st ! s \<and> student_match st ! s < int n)"
  by (simp add: shape_def)

lemma shapeI:
  assumes "length (hospital_match st) = n" "length (student_match st) = n"
    "length (next_proposal st) = n"
    "\<And>h. h < n \<Longrightarrow> 0 \<le> next_proposal st ! h \<and> next_proposal st ! h \<le> int n"
    "\<And>h. h < n \<Longrightarrow> hospital_match st ! h = - 1 \<or>
        (0 \<le> hospital_match st ! h \<and> hospital_match st ! h < int n)"
    "\<And>s. s < n \<Longrightarrow> student_match st ! s = - 1 \<or>
        (0 \<le> student_match st ! s \<and> student_match st ! s < int n)"
  shows "shape n st"
  using assms by (simp add: shape_def)

lemma consistentD:
  "consistent n st \<Longrightarrow> h < n \<Longrightarrow> s < n \<Longrightarrow>
   (hospital_match st ! h = int s) = (student_match st ! s = int h)"
  by (simp add: consistent_def)

lemma shape_step:
  assumes sh: "shape n st" and hp: "valid_prefs n hp"
    and h: "h < n" and k: "next_proposal st ! h < int n"
    and step: "proposal_step hp sp st h st'"
  shows "shape n st'"
proof -
  note len = shape_len[OF sh]
  have np: "next_proposal st' = (next_proposal st)[h := next_proposal st ! h + 1]"
    using step by (simp add: proposal_step_cursor)
  have cur: "0 \<le> next_proposal st' ! h' \<and> next_proposal st' ! h' \<le> int n" if "h' < n" for h'
    using shape_cursor[OF sh that] shape_cursor[OF sh h] k len(3) that
    by (cases "h' = h") (simp_all add: np)
  have lnp: "length (next_proposal st') = n" using len(3) by (simp add: np)
  from sh hp h k step show ?thesis
  proof (cases rule: proposal_step_cases)
    case (accept s)
    show ?thesis
    proof (rule shapeI)
      fix h' assume "h' < n"
      then show "hospital_match st' ! h' = - 1 \<or>
        (0 \<le> hospital_match st' ! h' \<and> hospital_match st' ! h' < int n)"
        using shape_hm[OF sh, of h'] accept(1) len(1)
        by (cases "h' = h") (simp_all add: accept(4))
    next
      fix s' assume "s' < n"
      then show "student_match st' ! s' = - 1 \<or>
        (0 \<le> student_match st' ! s' \<and> student_match st' ! s' < int n)"
        using shape_sm[OF sh, of s'] h len(2)
        by (cases "s' = s") (simp_all add: accept(5))
    qed (simp_all add: accept(4,5) len lnp cur)
  next
    case (swap s c)
    show ?thesis
    proof (rule shapeI)
      fix h' assume "h' < n"
      then show "hospital_match st' ! h' = - 1 \<or>
        (0 \<le> hospital_match st' ! h' \<and> hospital_match st' ! h' < int n)"
        using shape_hm[OF sh, of h'] swap(1,2) len(1)
        by (cases "h' = h"; cases "h' = c") (simp_all add: swap(6))
    next
      fix s' assume "s' < n"
      then show "student_match st' ! s' = - 1 \<or>
        (0 \<le> student_match st' ! s' \<and> student_match st' ! s' < int n)"
        using shape_sm[OF sh, of s'] h len(2)
        by (cases "s' = s") (simp_all add: swap(7))
    qed (simp_all add: swap(6,7) len lnp cur)
  next
    case (reject s c)
    show ?thesis
    proof (rule shapeI)
      fix h' assume "h' < n"
      then show "hospital_match st' ! h' = - 1 \<or>
        (0 \<le> hospital_match st' ! h' \<and> hospital_match st' ! h' < int n)"
        using shape_hm[OF sh, of h'] by (simp add: reject(6))
    next
      fix s' assume "s' < n"
      then show "student_match st' ! s' = - 1 \<or>
        (0 \<le> student_match st' ! s' \<and> student_match st' ! s' < int n)"
        using shape_sm[OF sh, of s'] by (simp add: reject(7))
    qed (simp_all add: reject(6,7) len lnp cur)
  qed
qed

lemma consistent_step:
  assumes sh: "shape n st" and hp: "valid_prefs n hp" and con: "consistent n st"
    and h: "h < n" and free: "hospital_match st ! h = - 1" and k: "next_proposal st ! h < int n"
    and step: "proposal_step hp sp st h st'"
  shows "consistent n st'"
proof -
  note len = shape_len[OF sh]
  have nh: "student_match st ! s' \<noteq> int h" if "s' < n" for s'
    using consistentD[OF con h that] free by auto
  from sh hp h k step show ?thesis
  proof (cases rule: proposal_step_cases)
    case (accept s)
    have ns: "hospital_match st ! h' \<noteq> int s" if "h' < n" for h'
      using consistentD[OF con that accept(1)] accept(3) by auto
    show ?thesis unfolding consistent_def
    proof (intro allI impI)
      fix h' s' assume a: "h' < n" "s' < n"
      show "(hospital_match st' ! h' = int s') = (student_match st' ! s' = int h')"
        using consistentD[OF con a] nh[OF a(2)] ns[OF a(1)] a len(1,2) h accept(1)
        by (cases "h' = h"; cases "s' = s") (auto simp: accept(4,5))
    qed
  next
    case (swap s c)
    have hc: "hospital_match st ! c = int s" using consistentD[OF con swap(2,1)] swap(4) by simp
    then have ch: "c \<noteq> h" using free by auto
    have ns: "hospital_match st ! h' \<noteq> int s" if "h' < n" "h' \<noteq> c" for h'
      using consistentD[OF con that(1) swap(1)] swap(4) that(2) by auto
    have nc: "student_match st ! s' \<noteq> int c" if "s' < n" "s' \<noteq> s" for s'
      using consistentD[OF con swap(2) that(1)] hc that(2) by auto
    show ?thesis unfolding consistent_def
    proof (intro allI impI)
      fix h' s' assume a: "h' < n" "s' < n"
      show "(hospital_match st' ! h' = int s') = (student_match st' ! s' = int h')"
        using consistentD[OF con a] nh[OF a(2)] ns[OF a(1)] nc[OF a(2)] a len(1,2) h swap(1,2) ch
        by (cases "h' = h"; cases "h' = c"; cases "s' = s") (auto simp: swap(6,7))
    qed
  next
    case (reject s c)
    then show ?thesis using con unfolding consistent_def by simp
  qed
qed

lemma last_proposedD:
  "last_proposed n hp st \<Longrightarrow> h < n \<Longrightarrow> hospital_match st ! h \<noteq> - 1 \<Longrightarrow>
   0 < next_proposal st ! h \<and> hospital_match st ! h = hp ! h ! (nat (next_proposal st ! h) - 1)"
  by (simp add: last_proposed_def)

lemma settledD:
  "settled n hp sp st \<Longrightarrow> h < n \<Longrightarrow> k < nat (next_proposal st ! h) \<Longrightarrow>
   student_match st ! nat (hp ! h ! k) \<noteq> - 1 \<and>
   rank_of (sp ! nat (hp ! h ! k)) (student_match st ! nat (hp ! h ! k))
     \<le> rank_of (sp ! nat (hp ! h ! k)) (int h)"
  by (simp add: settled_def)

lemma last_proposed_step:
  assumes sh: "shape n st" and hp: "valid_prefs n hp" and con: "consistent n st"
    and lp: "last_proposed n hp st"
    and h: "h < n" and free: "hospital_match st ! h = - 1" and k: "next_proposal st ! h < int n"
    and step: "proposal_step hp sp st h st'"
  shows "last_proposed n hp st'"
proof -
  note len = shape_len[OF sh]
  have np: "next_proposal st' = (next_proposal st)[h := next_proposal st ! h + 1]"
    using step by (simp add: proposal_step_cursor)
  have k0: "0 \<le> next_proposal st ! h" using shape_cursor[OF sh h] by simp
  have nph: "next_proposal st' ! h = next_proposal st ! h + 1"
    using h len(3) by (simp add: np)
  have npo: "next_proposal st' ! h' = next_proposal st ! h'" if "h' \<noteq> h" for h'
    using that by (simp add: np)
  have new: "0 < next_proposal st' ! h \<and>
      hp ! h ! nat (next_proposal st ! h) = hp ! h ! (nat (next_proposal st' ! h) - 1)"
    using k0 by (simp add: nph nat_add_distrib)
  from sh hp h k step show ?thesis
  proof (cases rule: proposal_step_cases)
    case (accept s)
    show ?thesis unfolding last_proposed_def
    proof (intro allI impI)
      fix h' assume a: "h' < n" "hospital_match st' ! h' \<noteq> - 1"
      show "0 < next_proposal st' ! h' \<and>
        hospital_match st' ! h' = hp ! h' ! (nat (next_proposal st' ! h') - 1)"
      proof (cases "h' = h")
        case True
        then show ?thesis using new accept(2) h len(1) by (simp add: accept(4))
      next
        case False
        then show ?thesis using last_proposedD[OF lp a(1)] a(2) npo[OF False]
          by (simp add: accept(4))
      qed
    qed
  next
    case (swap s c)
    have hc: "hospital_match st ! c = int s" using consistentD[OF con swap(2,1)] swap(4) by simp
    then have ch: "c \<noteq> h" using free by auto
    show ?thesis unfolding last_proposed_def
    proof (intro allI impI)
      fix h' assume a: "h' < n" "hospital_match st' ! h' \<noteq> - 1"
      show "0 < next_proposal st' ! h' \<and>
        hospital_match st' ! h' = hp ! h' ! (nat (next_proposal st' ! h') - 1)"
      proof (cases "h' = h")
        case True
        then show ?thesis using new swap(3) h len(1) by (simp add: swap(6))
      next
        case False
        have "h' \<noteq> c" using a(2) False swap(2) len(1) by (auto simp: swap(6))
        then show ?thesis using last_proposedD[OF lp a(1)] a(2) npo[OF False] False
          by (simp add: swap(6))
      qed
    qed
  next
    case (reject s c)
    show ?thesis unfolding last_proposed_def
    proof (intro allI impI)
      fix h' assume a: "h' < n" "hospital_match st' ! h' \<noteq> - 1"
      then have "h' \<noteq> h" using free by (auto simp: reject(6))
      then show "0 < next_proposal st' ! h' \<and>
        hospital_match st' ! h' = hp ! h' ! (nat (next_proposal st' ! h') - 1)"
        using last_proposedD[OF lp a(1)] a(2) npo by (simp add: reject(6))
    qed
  qed
qed

lemma settled_step:
  assumes sh: "shape n st" and hp: "valid_prefs n hp"
    and se: "settled n hp sp st"
    and h: "h < n" and k: "next_proposal st ! h < int n"
    and step: "proposal_step hp sp st h st'"
  shows "settled n hp sp st'"
proof -
  note len = shape_len[OF sh]
  have np: "next_proposal st' = (next_proposal st)[h := next_proposal st ! h + 1]"
    using step by (simp add: proposal_step_cursor)
  have k0: "0 \<le> next_proposal st ! h" using shape_cursor[OF sh h] by simp
  have nph: "next_proposal st' ! h = next_proposal st ! h + 1"
    using h len(3) by (simp add: np)
  have npo: "next_proposal st' ! h' = next_proposal st ! h'" if "h' \<noteq> h" for h'
    using that by (simp add: np)
  have old: "k' < nat (next_proposal st ! h')"
    if "h' < n" "k' < nat (next_proposal st' ! h')" "\<not> (h' = h \<and> k' = nat (next_proposal st ! h))"
    for h' k'
  proof (cases "h' = h")
    case True
    then show ?thesis using that k0 by (auto simp: nph)
  next
    case False
    then show ?thesis using that by (simp add: npo)
  qed
  from sh hp h k step show ?thesis
  proof (cases rule: proposal_step_cases)
    case (accept s)
    show ?thesis unfolding settled_def
    proof (intro allI impI)
      fix h' k' assume a: "h' < n" "k' < nat (next_proposal st' ! h')"
      let ?s = "nat (hp ! h' ! k')"
      show "student_match st' ! ?s \<noteq> - 1 \<and>
        rank_of (sp ! ?s) (student_match st' ! ?s) \<le> rank_of (sp ! ?s) (int h')"
      proof (cases "h' = h \<and> k' = nat (next_proposal st ! h)")
        case True
        then show ?thesis using accept(1,2) len(2) by (simp add: accept(5))
      next
        case False
        from settledD[OF se a(1) old[OF a False]]
        have o: "student_match st ! ?s \<noteq> - 1"
          "rank_of (sp ! ?s) (student_match st ! ?s) \<le> rank_of (sp ! ?s) (int h')" by simp_all
        then have "?s \<noteq> s" using accept(3) by auto
        then show ?thesis using o by (simp add: accept(5))
      qed
    qed
  next
    case (swap s c)
    show ?thesis unfolding settled_def
    proof (intro allI impI)
      fix h' k' assume a: "h' < n" "k' < nat (next_proposal st' ! h')"
      let ?s = "nat (hp ! h' ! k')"
      show "student_match st' ! ?s \<noteq> - 1 \<and>
        rank_of (sp ! ?s) (student_match st' ! ?s) \<le> rank_of (sp ! ?s) (int h')"
      proof (cases "h' = h \<and> k' = nat (next_proposal st ! h)")
        case True
        then show ?thesis using swap(1,3) len(2) by (simp add: swap(7))
      next
        case False
        from settledD[OF se a(1) old[OF a False]]
        have o: "student_match st ! ?s \<noteq> - 1"
          "rank_of (sp ! ?s) (student_match st ! ?s) \<le> rank_of (sp ! ?s) (int h')" by simp_all
        show ?thesis
        proof (cases "?s = s")
          case True
          then show ?thesis using o swap(1,4,5) len(2) by (simp add: swap(7))
        next
          case False
          then show ?thesis using o by (simp add: swap(7))
        qed
      qed
    qed
  next
    case (reject s c)
    show ?thesis unfolding settled_def
    proof (intro allI impI)
      fix h' k' assume a: "h' < n" "k' < nat (next_proposal st' ! h')"
      let ?s = "nat (hp ! h' ! k')"
      show "student_match st' ! ?s \<noteq> - 1 \<and>
        rank_of (sp ! ?s) (student_match st' ! ?s) \<le> rank_of (sp ! ?s) (int h')"
      proof (cases "h' = h \<and> k' = nat (next_proposal st ! h)")
        case True
        then show ?thesis using reject(1,3,4,5) by (simp add: reject(7))
      next
        case False
        from settledD[OF se a(1) old[OF a False]]
        show ?thesis by (simp add: reject(7))
      qed
    qed
  qed
qed

lemma sum_list_update_int:
  "h < length xs \<Longrightarrow> sum_list (xs[h := xs ! h + 1]) = sum_list xs + (1::int)"
proof (induction xs arbitrary: h)
  case Nil then show ?case by simp
next
  case (Cons x xs) then show ?case by (cases h) auto
qed

lemma counted_step:
  assumes sh: "shape n st" and c: "counted st" and h: "h < n"
    and step: "proposal_step hp sp st h st'"
  shows "counted st'"
  using c h shape_len(3)[OF sh] proposal_step_cursor[OF step]
  by (simp add: counted_def sum_list_update_int)

lemma gs_inv_step:
  assumes inv: "gs_inv n hp sp st" and hp: "valid_prefs n hp"
    and h: "h < n" and free: "hospital_match st ! h = - 1" and k: "next_proposal st ! h < int n"
    and step: "proposal_step hp sp st h st'"
  shows "gs_inv n hp sp st'"
proof -
  from inv have sh: "shape n st" and con: "consistent n st" and lp: "last_proposed n hp st"
    and se: "settled n hp sp st" and co: "counted st" by (simp_all add: gs_inv_def)
  show ?thesis unfolding gs_inv_def
    using shape_step[OF sh hp h k step] consistent_step[OF sh hp con h free k step]
      last_proposed_step[OF sh hp con lp h free k step] settled_step[OF sh hp se h k step]
      counted_step[OF sh co h step] by simp
qed

lemma gs_inv_init: "gs_inv n hp sp (gs_init n)"
  by (simp add: gs_inv_def gs_init_def shape_def consistent_def last_proposed_def settled_def
      counted_def sum_list_replicate)

lemma gs_inv_shape: "gs_inv n hp sp st \<Longrightarrow> shape n st"
  by (simp add: gs_inv_def)

lemma gs_iter_cases:
  assumes inv: "gs_inv n hp sp st" and hp: "valid_prefs n hp" and sr: "rank_table n sp sr"
  shows "(gs_iter n hp sr st = Some (Inl st) \<and>
          find_free n (hospital_match st) (next_proposal st) [0..<n] = Some (- 1) \<and>
          (\<forall>h<n. hospital_match st ! h \<noteq> - 1 \<or> \<not> next_proposal st ! h < int n)) \<or>
         (\<exists>h st'. h < n \<and> hospital_match st ! h = - 1 \<and> next_proposal st ! h < int n \<and>
            find_free n (hospital_match st) (next_proposal st) [0..<n] = Some (int h) \<and>
            next_student hp st (int h) = Some (hp ! h ! nat (next_proposal st ! h)) \<and>
            propose hp sr st (int h) = Some st' \<and>
            gs_iter n hp sr st = Some (Inr st') \<and> proposal_step hp sp st h st')"
proof -
  have sh: "shape n st" using inv by (rule gs_inv_shape)
  note len = shape_len[OF sh]
  have rng: "\<forall>h \<in> set [0..<n]. h < length (hospital_match st) \<and> h < length (next_proposal st)"
    using len by simp
  from find_free_total[OF rng, of n]
  obtain f where f: "find_free n (hospital_match st) (next_proposal st) [0..<n] = Some f" by blast
  show ?thesis
  proof (cases "f = - 1")
    case True
    then have "\<forall>h<n. hospital_match st ! h \<noteq> - 1 \<or> \<not> next_proposal st ! h < int n"
      using find_free_exhausted[OF _ rng, of n] f by auto
    then show ?thesis using f True by (simp add: gs_iter_def)
  next
    case False
    from find_free_found[OF f False] obtain h where h: "h < n" "f = int h"
      "hospital_match st ! h = - 1" "next_proposal st ! h < int n" by auto
    from propose_valid[OF sh hp sr h(1,4)] obtain st' where
      st': "propose hp sr st (int h) = Some st'" "proposal_step hp sp st h st'" by blast
    have "gs_iter n hp sr st = Some (Inr st')" using f False h(2) st'(1) by (simp add: gs_iter_def)
    then show ?thesis using h st' f next_student_valid[OF sh hp h(1,4)] by blast
  qed
qed

lemma gs_iter_inv:
  assumes inv: "gs_inv n hp sp st" and hp: "valid_prefs n hp" and sr: "rank_table n sp sr"
    and it: "gs_iter n hp sr st = Some (Inr st')"
  shows "gs_inv n hp sp st'"
  using gs_iter_cases[OF inv hp sr] it gs_inv_step[OF inv hp] by auto

lemma gs_loop_inv:
  assumes "gs_inv n hp sp st" "valid_prefs n hp" "rank_table n sp sr"
  shows "\<exists>st'. gs_loop n hp sr st = Some st' \<and> gs_inv n hp sp st' \<and>
           gs_iter n hp sr st' = Some (Inl st') \<and>
           (\<forall>h<n. hospital_match st' ! h \<noteq> - 1 \<or> \<not> next_proposal st' ! h < int n)"
  using assms
proof (induction n hp sr st rule: gs_loop.induct)
  case (1 n hp sr st)
  from gs_iter_cases[OF "1.prems"] show ?case
  proof (elim disjE conjE exE)
    assume a: "gs_iter n hp sr st = Some (Inl st)"
      "\<forall>h<n. hospital_match st ! h \<noteq> - 1 \<or> \<not> next_proposal st ! h < int n"
    then have "gs_loop n hp sr st = Some st" by (subst gs_loop.simps) simp
    then show ?thesis using a "1.prems"(1) by simp
  next
    fix h st' assume a: "gs_iter n hp sr st = Some (Inr st')"
    have inv': "gs_inv n hp sp st'" by (rule gs_iter_inv[OF "1.prems" a])
    have "gs_loop n hp sr st = gs_loop n hp sr st'" using a by (subst gs_loop.simps) simp
    then show ?thesis using "1.IH"[OF a _ inv' "1.prems"(2,3)] by simp
  qed
qed

lemma gs_run_inv:
  assumes "gs_run n hp sr st ps" "valid_prefs n hp" "rank_table n sp sr"
  shows "gs_inv n hp sp st"
  using assms
proof (induction rule: gs_run.induct)
  case gs_run_init
  show ?case by (rule gs_inv_init)
next
  case (gs_run_step st ps f s st')
  have "gs_iter n hp sr st = Some (Inr st')"
    using gs_run_step.hyps(2,3,5) by (simp add: gs_iter_def)
  then show ?case using gs_iter_inv gs_run_step.IH gs_run_step.prems by blast
qed

lemma gs_loop_run:
  assumes "gs_run n hp sr st ps" "valid_prefs n hp" "rank_table n sp sr"
  shows "\<exists>st' ps'. gs_loop n hp sr st = Some st' \<and> gs_run n hp sr st' (ps @ ps')"
  using assms
proof (induction n hp sr st arbitrary: ps rule: gs_loop.induct)
  case (1 n hp sr st)
  have inv: "gs_inv n hp sp st" by (rule gs_run_inv[OF "1.prems"])
  from gs_iter_cases[OF inv "1.prems"(2,3)] show ?case
  proof (elim disjE conjE exE)
    assume a: "gs_iter n hp sr st = Some (Inl st)"
    then have "gs_loop n hp sr st = Some st" by (subst gs_loop.simps) simp
    then show ?thesis using "1.prems"(1) by (intro exI[of _ st] exI[of _ "[]"]) simp
  next
    fix h st' assume a: "gs_iter n hp sr st = Some (Inr st')"
      "find_free n (hospital_match st) (next_proposal st) [0..<n] = Some (int h)"
      "next_student hp st (int h) = Some (hp ! h ! nat (next_proposal st ! h))"
      "propose hp sr st (int h) = Some st'"
    have run': "gs_run n hp sr st' (ps @ [(int h, hp ! h ! nat (next_proposal st ! h))])"
      by (rule gs_run.gs_run_step[OF "1.prems"(1) a(2) _ a(3,4)]) simp
    have "gs_loop n hp sr st = gs_loop n hp sr st'" using a(1) by (subst gs_loop.simps) simp
    then show ?thesis using "1.IH"[OF a(1) _ run' "1.prems"(2,3)] by auto
  qed
qed

section \<open>The result of the engine\<close>

lemma permutation_of_nth_ex:
  assumes "permutation_of n p" "s < n"
  shows "\<exists>k<n. p ! k = int s"
proof -
  have "int s \<in> set p" using assms by (rule permutation_of_mem)
  then show ?thesis using assms(1) by (auto simp: in_set_conv_nth permutation_of_def)
qed

lemma final_students_matched:
  assumes inv: "gs_inv n hp sp st" and hp: "valid_prefs n hp"
    and h0: "h0 < n" "hospital_match st ! h0 = - 1" "\<not> next_proposal st ! h0 < int n"
    and s: "s < n"
  shows "student_match st ! s \<noteq> - 1"
proof -
  have sh: "shape n st" and se: "settled n hp sp st" using inv by (simp_all add: gs_inv_def)
  have np: "nat (next_proposal st ! h0) = n" using shape_cursor[OF sh h0(1)] h0(3) by simp
  from permutation_of_nth_ex[OF valid_prefs_nth[OF hp h0(1)] s]
  obtain k where k: "k < n" "hp ! h0 ! k = int s" by blast
  from settledD[OF se h0(1), of k] k np show ?thesis by simp
qed

lemma final_all_matched:
  assumes inv: "gs_inv n hp sp st" and hp: "valid_prefs n hp"
    and fin: "\<forall>h<n. hospital_match st ! h \<noteq> - 1 \<or> \<not> next_proposal st ! h < int n"
    and h0: "h0 < n"
  shows "hospital_match st ! h0 \<noteq> - 1"
proof
  assume free: "hospital_match st ! h0 = - 1"
  then have ex: "\<not> next_proposal st ! h0 < int n" using fin h0 by auto
  have sh: "shape n st" and con: "consistent n st" using inv by (simp_all add: gs_inv_def)
  let ?f = "\<lambda>s. nat (student_match st ! s)"
  have m: "student_match st ! s \<noteq> - 1" if "s < n" for s
    by (rule final_students_matched[OF inv hp h0 free ex that])
  have rng: "0 \<le> student_match st ! s \<and> student_match st ! s < int n" if "s < n" for s
    using shape_sm[OF sh that] m[OF that] by simp
  have inj: "inj_on ?f {0..<n}"
  proof (rule inj_onI)
    fix a b assume a: "a \<in> {0..<n}" "b \<in> {0..<n}" "?f a = ?f b"
    then have an: "a < n" and bn: "b < n" by simp_all
    let ?h = "?f a"
    have hn: "?h < n" and ha: "student_match st ! a = int ?h"
      using rng[OF an] by auto
    have hb: "student_match st ! b = int ?h" using rng[OF bn] a(3) by simp
    have "hospital_match st ! ?h = int a" using consistentD[OF con hn an] ha by simp
    moreover have "hospital_match st ! ?h = int b" using consistentD[OF con hn bn] hb by simp
    ultimately show "a = b" by simp
  qed
  have fr: "?f s < n" if "s < n" for s using rng[OF that] by linarith
  have sub: "?f ` {0..<n} \<subseteq> {0..<n}"
  proof
    fix y assume "y \<in> ?f ` {0..<n}"
    then obtain s where "s < n" "y = ?f s" by auto
    then show "y \<in> {0..<n}" using fr[of s] by simp
  qed
  have "card (?f ` {0..<n}) = n" using inj by (simp add: card_image)
  then have "?f ` {0..<n} = {0..<n}" using sub by (intro card_subset_eq) auto
  then have "h0 \<in> ?f ` {0..<n}" using h0 by simp
  then obtain s where s: "s < n" "?f s = h0" by auto
  have "student_match st ! s = int h0" using rng[OF s(1)] s(2) by linarith
  then have "hospital_match st ! h0 = int s" using consistentD[OF con h0 s(1)] by simp
  then show False using free by simp
qed

lemma final_permutation:
  assumes inv: "gs_inv n hp sp st" and hp: "valid_prefs n hp"
    and fin: "\<forall>h<n. hospital_match st ! h \<noteq> - 1 \<or> \<not> next_proposal st ! h < int n"
  shows "permutation_of n (hospital_match st)"
proof -
  have sh: "shape n st" and con: "consistent n st" using inv by (simp_all add: gs_inv_def)
  note len = shape_len[OF sh]
  have rng: "0 \<le> hospital_match st ! h \<and> hospital_match st ! h < int n" if "h < n" for h
    using shape_hm[OF sh that] final_all_matched[OF inv hp fin that] by simp
  have "distinct (hospital_match st)" unfolding distinct_conv_nth
  proof (intro allI impI)
    fix i j assume a: "i < length (hospital_match st)" "j < length (hospital_match st)" "i \<noteq> j"
    show "hospital_match st ! i \<noteq> hospital_match st ! j"
    proof
      assume e: "hospital_match st ! i = hospital_match st ! j"
      let ?s = "nat (hospital_match st ! i)"
      have i: "i < n" and j: "j < n" using a len by simp_all
      have sn: "?s < n" and hi: "hospital_match st ! i = int ?s" using rng[OF i] by auto
      have "student_match st ! ?s = int i" using consistentD[OF con i sn] hi by simp
      moreover have "student_match st ! ?s = int j" using consistentD[OF con j sn] hi e by simp
      ultimately show False using a(3) by simp
    qed
  qed
  moreover have "\<forall>x \<in> set (hospital_match st). 0 \<le> x \<and> x < int n"
    using rng len by (auto simp: in_set_conv_nth)
  ultimately show ?thesis using len by (simp add: permutation_of_def)
qed

lemma gale_shapley_final:
  assumes hp: "valid_prefs n hp" and sp: "valid_prefs n sp"
  shows "\<exists>sr st. build_rankings n sp = Some sr \<and> rank_table n sp sr \<and>
           gs_loop n hp sr (gs_init n) = Some st \<and>
           gale_shapley n hp sp = Some (hospital_match st) \<and> gs_inv n hp sp st \<and>
           (\<forall>h<n. hospital_match st ! h \<noteq> - 1 \<or> \<not> next_proposal st ! h < int n)"
proof -
  from build_rankings_ok[OF sp] obtain sr where
    sr: "build_rankings n sp = Some sr" "rank_table n sp sr" by blast
  from gs_loop_inv[OF gs_inv_init hp sr(2)] obtain st where
    st: "gs_loop n hp sr (gs_init n) = Some st" "gs_inv n hp sp st"
    "\<forall>h<n. hospital_match st ! h \<noteq> - 1 \<or> \<not> next_proposal st ! h < int n" by blast
  have "gale_shapley n hp sp = Some (hospital_match st)"
    using sr(1) st(1) by (simp add: gale_shapley_def)
  then show ?thesis using sr st by blast
qed

text \<open>
  C2: for preference tables that are permutations of \<open>0..n-1\<close>, \<^verbatim>\<open>gale_shapley\<close>
  returns, and the pairing it returns is a perfect matching: it has length \<open>n\<close>, its
  entries are distinct indices of \<open>0..n-1\<close>, none is the sentinel \<open>-1\<close>, and every
  receiver appears.
\<close>

theorem gale_shapley_perfect:
  assumes "valid_prefs n hp" "valid_prefs n sp"
  shows "\<exists>m. gale_shapley n hp sp = Some m \<and> length m = n \<and> distinct m \<and>
           (\<forall>x \<in> set m. 0 \<le> x \<and> x < int n) \<and> - 1 \<notin> set m \<and> set m = int ` {0..<n}"
proof -
  from gale_shapley_final[OF assms] obtain sr st where
    st: "gale_shapley n hp sp = Some (hospital_match st)" "gs_inv n hp sp st"
    "\<forall>h<n. hospital_match st ! h \<noteq> - 1 \<or> \<not> next_proposal st ! h < int n" by blast
  let ?m = "hospital_match st"
  have p: "permutation_of n ?m" by (rule final_permutation[OF st(2) assms(1) st(3)])
  have a: "length ?m = n" "distinct ?m" "\<forall>x \<in> set ?m. 0 \<le> x \<and> x < int n"
    using p by (simp_all add: permutation_of_def)
  have b: "- 1 \<notin> set ?m" using a(3) by fastforce
  have c: "set ?m = int ` {0..<n}" by (rule permutation_of_set[OF p])
  from st(1) a b c show ?thesis by blast
qed

lemma run_example: "gale_shapley 3 [[0,1,2],[1,0,2],[0,1,2]] [[1,0,2],[0,1,2],[0,1,2]] = Some [0,1,2]"
  by code_simp

lemma valid_example: "valid_prefs 3 [[0,1,2],[1,0,2],[0,1,2]]" "valid_prefs 3 [[1,0,2],[0,1,2],[0,1,2]]"
  by (simp_all add: valid_prefs_def permutation_of_def)

theorem gale_shapley_perfect_witness:
  "valid_prefs 3 [[0,1,2],[1,0,2],[0,1,2]] \<and> valid_prefs 3 [[1,0,2],[0,1,2],[0,1,2]] \<and>
   (\<exists>m. gale_shapley 3 [[0,1,2],[1,0,2],[0,1,2]] [[1,0,2],[0,1,2],[0,1,2]] = Some m \<and>
        length m = 3 \<and> distinct m \<and> - 1 \<notin> set m \<and> set m = int ` {0..<3})"
proof -
  have a: "valid_prefs 3 [[0,1,2],[1,0,2],[0,1,2]]"
    by (simp add: valid_prefs_def permutation_of_def)
  have b: "valid_prefs 3 [[1,0,2],[0,1,2],[0,1,2]]"
    by (simp add: valid_prefs_def permutation_of_def)
  from gale_shapley_perfect[OF a b] a b show ?thesis by blast
qed

lemma sum_list_bounded:
  "\<forall>x \<in> set xs. x \<le> (b::int) \<Longrightarrow> sum_list xs \<le> int (length xs) * b"
  by (induction xs) (auto simp: algebra_simps)

lemma gs_inv_count_bound:
  assumes "gs_inv n hp sp st"
  shows "proposal_count st \<le> n * n"
proof -
  have sh: "shape n st" and c: "counted st" using assms by (simp_all add: gs_inv_def)
  have "\<forall>x \<in> set (next_proposal st). x \<le> int n"
    using shape_cursor[OF sh] shape_len(3)[OF sh] by (auto simp: in_set_conv_nth)
  from sum_list_bounded[OF this] have "sum_list (next_proposal st) \<le> int n * int n"
    using shape_len(3)[OF sh] by simp
  then have "int (proposal_count st) \<le> int (n * n)" using c by (simp add: counted_def)
  then show ?thesis by linarith
qed

lemma gs_run_trace:
  assumes "gs_run n hp sr st ps" "valid_prefs n hp" "rank_table n sp sr"
  shows "distinct ps \<and> length ps = proposal_count st \<and>
         set ps = {(int h, hp ! h ! k) | h k. h < n \<and> k < nat (next_proposal st ! h)}"
  using assms
proof (induction rule: gs_run.induct)
  case gs_run_init
  show ?case by (simp add: gs_init_def)
next
  case (gs_run_step st ps f s st')
  have inv: "gs_inv n hp sp st" by (rule gs_run_inv[OF gs_run_step.hyps(1) gs_run_step.prems])
  have sh: "shape n st" using inv by (rule gs_inv_shape)
  from gs_run_step.IH[OF gs_run_step.prems]
  have ih: "distinct ps" "length ps = proposal_count st"
    "set ps = {(int h, hp ! h ! k) | h k. h < n \<and> k < nat (next_proposal st ! h)}" by simp_all
  from find_free_found[OF gs_run_step.hyps(2,3)] obtain h where
    h: "h < n" "f = int h" "next_proposal st ! h < int n" by auto
  have k0: "0 \<le> next_proposal st ! h" using shape_cursor[OF sh h(1)] by simp
  let ?k = "nat (next_proposal st ! h)"
  have kn: "?k < n" using h(3) k0 by simp
  have s: "s = hp ! h ! ?k"
    using next_student_valid[OF sh gs_run_step.prems(1) h(1,3)] gs_run_step.hyps(4) h(2) by simp
  from propose_valid[OF sh gs_run_step.prems(1,2) h(1,3)] gs_run_step.hyps(5) h(2)
  have step: "proposal_step hp sp st h st'" by auto
  note cur = proposal_step_cursor[OF step]
  have nph: "nat (next_proposal st' ! h) = Suc ?k"
    using cur h(1) shape_len(3)[OF sh] k0 by (simp add: nat_add_distrib)
  have npo: "next_proposal st' ! h' = next_proposal st ! h'" if "h' \<noteq> h" for h'
    using cur that by simp
  have p: "permutation_of n (hp ! h)" by (rule valid_prefs_nth[OF gs_run_step.prems(1) h(1)])
  have new: "(f, s) \<notin> set ps"
  proof
    assume "(f, s) \<in> set ps"
    then obtain h' k' where a: "int h = int h'" "s = hp ! h' ! k'" "h' < n"
      "k' < nat (next_proposal st ! h')" using ih(3) h(2) by auto
    then have "h' = h" by simp
    then have "hp ! h ! k' = hp ! h ! ?k" "k' < ?k" using a s by simp_all
    moreover have "distinct (hp ! h)" "length (hp ! h) = n" using p by (simp_all add: permutation_of_def)
    ultimately show False using kn by (simp add: nth_eq_iff_index_eq)
  qed
  have set': "set (ps @ [(f, s)]) =
      {(int h', hp ! h' ! k) | h' k. h' < n \<and> k < nat (next_proposal st' ! h')}" (is "?L = ?R")
  proof (intro set_eqI iffI)
    fix x assume "x \<in> ?L"
    then consider "x = (int h, hp ! h ! ?k)" | "x \<in> set ps" using h(2) s by auto
    then show "x \<in> ?R"
    proof cases
      case 1
      then show ?thesis using h(1) nph by auto
    next
      case 2
      then obtain h' k' where a: "x = (int h', hp ! h' ! k')" "h' < n"
        "k' < nat (next_proposal st ! h')" using ih(3) by auto
      have "k' < nat (next_proposal st' ! h')"
        using a(3) nph npo[of h'] by (cases "h' = h") simp_all
      then show ?thesis using a(1,2) by blast
    qed
  next
    fix x assume "x \<in> ?R"
    then obtain h' k' where a: "x = (int h', hp ! h' ! k')" "h' < n"
      "k' < nat (next_proposal st' ! h')" by auto
    show "x \<in> ?L"
    proof (cases "h' = h \<and> k' = ?k")
      case True
      then show ?thesis using a(1) h(2) s by simp
    next
      case False
      have "k' < nat (next_proposal st ! h')"
        using a(3) nph npo[of h'] False by (cases "h' = h") auto
      then have "x \<in> set ps" using ih(3) a(1,2) by blast
      then show ?thesis by simp
    qed
  qed
  show ?case using ih(1,2) new set' cur by simp
qed

lemma trade_up_step:
  assumes inv: "gs_inv n hp sp st" and hp: "valid_prefs n hp" and sr: "rank_table n sp sr"
    and it: "gs_iter n hp sr st = Some (Inr st')"
    and s: "s < n" and m: "student_match st ! s \<noteq> - 1"
  shows "student_match st' ! s \<noteq> - 1 \<and>
         (student_match st' ! s = student_match st ! s \<or>
          rank_of (sp ! s) (student_match st' ! s) < rank_of (sp ! s) (student_match st ! s))"
proof -
  have sh: "shape n st" using inv by (rule gs_inv_shape)
  note len = shape_len[OF sh]
  from gs_iter_cases[OF inv hp sr] it obtain h where
    h: "h < n" "next_proposal st ! h < int n" "proposal_step hp sp st h st'" by auto
  from sh hp h show ?thesis
  proof (cases rule: proposal_step_cases)
    case (accept s0)
    then have "s \<noteq> s0" using m by auto
    then show ?thesis using m by (simp add: accept(5))
  next
    case (swap s0 c)
    show ?thesis
    proof (cases "s = s0")
      case True
      then show ?thesis using swap(1,4,5) len(2) by (simp add: swap(7))
    next
      case False
      then show ?thesis using m by (simp add: swap(7))
    qed
  next
    case (reject s0 c)
    then show ?thesis using m by simp
  qed
qed

lemma trade_up_steps:
  assumes steps: "(\<lambda>a b. gs_iter n hp sr a = Some (Inr b))\<^sup>*\<^sup>* st st'"
    and inv: "gs_inv n hp sp st" and hp: "valid_prefs n hp" and sr: "rank_table n sp sr"
    and s: "s < n" and m: "student_match st ! s \<noteq> - 1"
  shows "gs_inv n hp sp st' \<and> student_match st' ! s \<noteq> - 1 \<and>
         (student_match st' ! s = student_match st ! s \<or>
          rank_of (sp ! s) (student_match st' ! s) < rank_of (sp ! s) (student_match st ! s))"
  using steps
proof (induction rule: rtranclp_induct)
  case base
  show ?case using inv m by simp
next
  case (step st1 st2)
  then have inv1: "gs_inv n hp sp st1" and m1: "student_match st1 ! s \<noteq> - 1" by simp_all
  from trade_up_step[OF inv1 hp sr step.hyps(2) s m1] step.IH gs_iter_inv[OF inv1 hp sr step.hyps(2)]
  show ?case by auto
qed

lemma rank_table_match:
  assumes "rank_table n sp sr" "s < n" "0 \<le> c" "c < int n"
  shows "sr ! s ! nat c = int (rank_of (sp ! s) c)"
proof -
  have "nat c < n" using assms(3,4) by simp
  then have "sr ! s ! nat c = int (rank_of (sp ! s) (int (nat c)))"
    using assms(1,2) by (simp add: rank_table_def)
  then show ?thesis using assms(3) by simp
qed

text \<open>
  C10: receivers only trade up. From any state of a run, in every later state a
  receiver \<open>s\<close> that is matched is still matched, to a proposer whose entry in the
  rank table of \<open>s\<close> is no larger, and strictly smaller when the match has changed.
\<close>

theorem receivers_trade_up:
  assumes "valid_prefs n hp" "valid_prefs n sp" "build_rankings n sp = Some sr"
    and "gs_run n hp sr st ps"
    and "(\<lambda>a b. gs_iter n hp sr a = Some (Inr b))\<^sup>*\<^sup>* st st'"
    and "s < n" "student_match st ! s \<noteq> - 1"
  shows "student_match st' ! s \<noteq> - 1 \<and>
         sr ! s ! nat (student_match st' ! s) \<le> sr ! s ! nat (student_match st ! s) \<and>
         (student_match st' ! s \<noteq> student_match st ! s \<longrightarrow>
            sr ! s ! nat (student_match st' ! s) < sr ! s ! nat (student_match st ! s))"
proof -
  from build_rankings_ok[OF assms(2)] assms(3) have sr: "rank_table n sp sr" by simp
  have inv: "gs_inv n hp sp st" by (rule gs_run_inv[OF assms(4,1) sr])
  from trade_up_steps[OF assms(5) inv assms(1) sr assms(6,7)]
  have t: "gs_inv n hp sp st'" "student_match st' ! s \<noteq> - 1"
    "student_match st' ! s = student_match st ! s \<or>
     rank_of (sp ! s) (student_match st' ! s) < rank_of (sp ! s) (student_match st ! s)"
    by simp_all
  have r: "sr ! s ! nat (student_match st ! s) = int (rank_of (sp ! s) (student_match st ! s))"
    using shape_sm[OF gs_inv_shape[OF inv] assms(6)] assms(7)
    by (intro rank_table_match[OF sr assms(6)]) simp_all
  have r': "sr ! s ! nat (student_match st' ! s) = int (rank_of (sp ! s) (student_match st' ! s))"
    using shape_sm[OF gs_inv_shape[OF t(1)] assms(6)] t(2)
    by (intro rank_table_match[OF sr assms(6)]) simp_all
  show ?thesis using t(2,3) unfolding r r' by auto
qed

text \<open>
  C9: after every iteration of the main loop the two match arrays agree:
  \<open>hospital_match[h] = s\<close> exactly when \<open>student_match[s] = h\<close>, every entry is
  \<open>-1\<close> or an index, and no two proposers hold the same receiver, nor two receivers
  the same proposer.
\<close>

theorem match_maps_consistent:
  assumes "valid_prefs n hp" "valid_prefs n sp" "build_rankings n sp = Some sr"
    and "gs_run n hp sr st ps"
  shows "(\<forall>h<n. \<forall>s<n. (hospital_match st ! h = int s) = (student_match st ! s = int h)) \<and>
         (\<forall>h<n. hospital_match st ! h = - 1 \<or> (\<exists>s<n. hospital_match st ! h = int s)) \<and>
         (\<forall>s<n. student_match st ! s = - 1 \<or> (\<exists>h<n. student_match st ! s = int h)) \<and>
         (\<forall>h1<n. \<forall>h2<n. hospital_match st ! h1 \<noteq> - 1 \<longrightarrow>
            hospital_match st ! h1 = hospital_match st ! h2 \<longrightarrow> h1 = h2) \<and>
         (\<forall>s1<n. \<forall>s2<n. student_match st ! s1 \<noteq> - 1 \<longrightarrow>
            student_match st ! s1 = student_match st ! s2 \<longrightarrow> s1 = s2)"
proof -
  from build_rankings_ok[OF assms(2)] assms(3) have sr: "rank_table n sp sr" by simp
  have inv: "gs_inv n hp sp st" by (rule gs_run_inv[OF assms(4,1) sr])
  then have sh: "shape n st" and con: "consistent n st" by (simp_all add: gs_inv_def)
  have hm: "\<exists>s<n. hospital_match st ! h = int s" if "h < n" "hospital_match st ! h \<noteq> - 1" for h
  proof -
    have "0 \<le> hospital_match st ! h" "hospital_match st ! h < int n"
      using shape_hm[OF sh that(1)] that(2) by simp_all
    then have "nat (hospital_match st ! h) < n"
      "hospital_match st ! h = int (nat (hospital_match st ! h))" by simp_all
    then show ?thesis by blast
  qed
  have sm: "\<exists>h<n. student_match st ! s = int h" if "s < n" "student_match st ! s \<noteq> - 1" for s
  proof -
    have "0 \<le> student_match st ! s" "student_match st ! s < int n"
      using shape_sm[OF sh that(1)] that(2) by simp_all
    then have "nat (student_match st ! s) < n"
      "student_match st ! s = int (nat (student_match st ! s))" by simp_all
    then show ?thesis by blast
  qed
  have c1: "\<forall>h<n. \<forall>s<n. (hospital_match st ! h = int s) = (student_match st ! s = int h)"
    using con by (simp add: consistent_def)
  have c2: "\<forall>h<n. hospital_match st ! h = - 1 \<or> (\<exists>s<n. hospital_match st ! h = int s)"
    using hm by blast
  have c3: "\<forall>s<n. student_match st ! s = - 1 \<or> (\<exists>h<n. student_match st ! s = int h)"
    using sm by blast
  have c4: "\<forall>h1<n. \<forall>h2<n. hospital_match st ! h1 \<noteq> - 1 \<longrightarrow>
            hospital_match st ! h1 = hospital_match st ! h2 \<longrightarrow> h1 = h2"
  proof (intro allI impI)
    fix h1 h2 assume a: "h1 < n" "h2 < n" "hospital_match st ! h1 \<noteq> - 1"
      "hospital_match st ! h1 = hospital_match st ! h2"
    from hm[OF a(1,3)] obtain s where s: "s < n" "hospital_match st ! h1 = int s" by blast
    have "student_match st ! s = int h1" using consistentD[OF con a(1) s(1)] s(2) by simp
    moreover have "student_match st ! s = int h2" using consistentD[OF con a(2) s(1)] s(2) a(4) by simp
    ultimately show "h1 = h2" by simp
  qed
  have c5: "\<forall>s1<n. \<forall>s2<n. student_match st ! s1 \<noteq> - 1 \<longrightarrow>
            student_match st ! s1 = student_match st ! s2 \<longrightarrow> s1 = s2"
  proof (intro allI impI)
    fix s1 s2 assume a: "s1 < n" "s2 < n" "student_match st ! s1 \<noteq> - 1"
      "student_match st ! s1 = student_match st ! s2"
    from sm[OF a(1,3)] obtain h where h: "h < n" "student_match st ! s1 = int h" by blast
    have "hospital_match st ! h = int s1" using consistentD[OF con h(1) a(1)] h(2) by simp
    moreover have "hospital_match st ! h = int s2" using consistentD[OF con h(1) a(2)] h(2) a(4) by simp
    ultimately show "s1 = s2" by simp
  qed
  from c1 c2 c3 c4 c5 show ?thesis by blast
qed

text \<open>
  C3: the main loop terminates, after at most \<open>n\<^sup>2\<close> proposals. The final state is
  reached by a run whose proposals (proposer and receiver) are pairwise distinct and
  counted by \<open>proposal_count\<close>; the loop stops exactly where the scan finds no
  unmatched proposer with a receiver left on its list; and each iteration advances the
  cursor of one such proposer by one and leaves the other cursors as they are.
\<close>

theorem proposals_bounded:
  assumes "valid_prefs n hp" "valid_prefs n sp"
  shows "\<exists>sr st ps. build_rankings n sp = Some sr \<and>
           gs_loop n hp sr (gs_init n) = Some st \<and>
           gale_shapley n hp sp = Some (hospital_match st) \<and>
           gs_run n hp sr st ps \<and> distinct ps \<and> length ps = proposal_count st \<and>
           proposal_count st \<le> n * n \<and>
           gs_iter n hp sr st = Some (Inl st) \<and>
           (\<forall>h<n. hospital_match st ! h \<noteq> - 1 \<or> \<not> next_proposal st ! h < int n) \<and>
           (\<forall>st1 ps1 st2. gs_run n hp sr st1 ps1 \<longrightarrow> gs_iter n hp sr st1 = Some (Inr st2) \<longrightarrow>
              (\<exists>h<n. hospital_match st1 ! h = - 1 \<and> next_proposal st1 ! h < int n \<and>
                 next_proposal st2 = (next_proposal st1)[h := next_proposal st1 ! h + 1] \<and>
                 proposal_count st2 = Suc (proposal_count st1)))"
proof -
  from build_rankings_ok[OF assms(2)] obtain sr where
    sr: "build_rankings n sp = Some sr" "rank_table n sp sr" by blast
  from gs_loop_inv[OF gs_inv_init assms(1) sr(2)] obtain st where
    st: "gs_loop n hp sr (gs_init n) = Some st" "gs_inv n hp sp st"
    "gs_iter n hp sr st = Some (Inl st)"
    "\<forall>h<n. hospital_match st ! h \<noteq> - 1 \<or> \<not> next_proposal st ! h < int n" by blast
  from gs_loop_run[OF gs_run_init assms(1) sr(2)] st(1) obtain ps where
    ps: "gs_run n hp sr st ps" by auto
  from gs_run_trace[OF ps assms(1) sr(2)]
  have tr: "distinct ps" "length ps = proposal_count st" by simp_all
  have gs: "gale_shapley n hp sp = Some (hospital_match st)"
    using sr(1) st(1) by (simp add: gale_shapley_def)
  have bound: "proposal_count st \<le> n * n" by (rule gs_inv_count_bound[OF st(2)])
  have mono: "\<forall>st1 ps1 st2. gs_run n hp sr st1 ps1 \<longrightarrow> gs_iter n hp sr st1 = Some (Inr st2) \<longrightarrow>
              (\<exists>h<n. hospital_match st1 ! h = - 1 \<and> next_proposal st1 ! h < int n \<and>
                 next_proposal st2 = (next_proposal st1)[h := next_proposal st1 ! h + 1] \<and>
                 proposal_count st2 = Suc (proposal_count st1))"
  proof (intro allI impI)
    fix st1 ps1 st2
    assume a: "gs_run n hp sr st1 ps1" "gs_iter n hp sr st1 = Some (Inr st2)"
    have inv1: "gs_inv n hp sp st1" by (rule gs_run_inv[OF a(1) assms(1) sr(2)])
    from gs_iter_cases[OF inv1 assms(1) sr(2)] a(2) obtain h where
      h: "h < n" "hospital_match st1 ! h = - 1" "next_proposal st1 ! h < int n"
      "proposal_step hp sp st1 h st2" by auto
    from proposal_step_cursor[OF h(4)] h(1,2,3)
    show "\<exists>h<n. hospital_match st1 ! h = - 1 \<and> next_proposal st1 ! h < int n \<and>
                 next_proposal st2 = (next_proposal st1)[h := next_proposal st1 ! h + 1] \<and>
                 proposal_count st2 = Suc (proposal_count st1)" by blast
  qed
  from sr(1) st(1) gs ps tr bound st(3,4) mono show ?thesis by blast
qed

lemma ex_valid_hp: "valid_prefs 2 [[0, 1], [0, 1]]"
  by (simp add: valid_prefs_def permutation_of_def)

lemma ex_valid_sp: "valid_prefs 2 [[1, 0], [1, 0]]"
  by (simp add: valid_prefs_def permutation_of_def)

lemma ex_rankings: "build_rankings 2 [[1, 0], [1, 0]] = Some [[1, 0], [1, 0]]"
  by code_simp

lemma ex_run1:
  "gs_run 2 [[0, 1], [0, 1]] [[1, 0], [1, 0]]
     \<lparr>hospital_match = [0, - 1], student_match = [0, - 1], next_proposal = [1, 0],
      proposal_count = 1\<rparr> [(0, 0)]"
proof -
  have "gs_run 2 [[0, 1], [0, 1]] [[1, 0], [1, 0]]
     \<lparr>hospital_match = [0, - 1], student_match = [0, - 1], next_proposal = [1, 0],
      proposal_count = 1\<rparr> ([] @ [(0, 0)])"
  proof (rule gs_run_step[OF gs_run_init])
    show "find_free 2 (hospital_match (gs_init 2)) (next_proposal (gs_init 2)) [0..<2] = Some 0"
      by code_simp
    show "(0::int) \<noteq> - 1" by simp
    show "next_student [[0, 1], [0, 1]] (gs_init 2) 0 = Some 0" by code_simp
    show "propose [[0, 1], [0, 1]] [[1, 0], [1, 0]] (gs_init 2) 0 =
      Some \<lparr>hospital_match = [0, - 1], student_match = [0, - 1], next_proposal = [1, 0],
            proposal_count = 1\<rparr>" by code_simp
  qed
  then show ?thesis by simp
qed

lemma ex_iter2:
  "gs_iter 2 [[0, 1], [0, 1]] [[1, 0], [1, 0]]
     \<lparr>hospital_match = [0, - 1], student_match = [0, - 1], next_proposal = [1, 0],
      proposal_count = 1\<rparr> =
   Some (Inr \<lparr>hospital_match = [- 1, 0], student_match = [1, - 1], next_proposal = [1, 1],
      proposal_count = 2\<rparr>)"
  by code_simp

lemma ex_run2:
  "gs_run 2 [[0, 1], [0, 1]] [[1, 0], [1, 0]]
     \<lparr>hospital_match = [- 1, 0], student_match = [1, - 1], next_proposal = [1, 1],
      proposal_count = 2\<rparr> [(0, 0), (1, 0)]"
proof -
  let ?st1 = "\<lparr>hospital_match = [0, - 1], student_match = [0, - 1], next_proposal = [1, 0],
      proposal_count = 1\<rparr>"
  have "gs_run 2 [[0, 1], [0, 1]] [[1, 0], [1, 0]]
     \<lparr>hospital_match = [- 1, 0], student_match = [1, - 1], next_proposal = [1, 1],
      proposal_count = 2\<rparr> ([(0, 0)] @ [(1, 0)])"
  proof (rule gs_run_step[OF ex_run1])
    show "find_free 2 (hospital_match ?st1) (next_proposal ?st1) [0..<2] = Some 1"
      by code_simp
    show "(1::int) \<noteq> - 1" by simp
    show "next_student [[0, 1], [0, 1]] ?st1 1 = Some 0" by code_simp
    show "propose [[0, 1], [0, 1]] [[1, 0], [1, 0]] ?st1 1 =
      Some \<lparr>hospital_match = [- 1, 0], student_match = [1, - 1], next_proposal = [1, 1],
            proposal_count = 2\<rparr>" by code_simp
  qed
  then show ?thesis by simp
qed

theorem match_maps_consistent_witness:
  "gs_run 2 [[0, 1], [0, 1]] [[1, 0], [1, 0]]
     \<lparr>hospital_match = [- 1, 0], student_match = [1, - 1], next_proposal = [1, 1],
      proposal_count = 2\<rparr> [(0, 0), (1, 0)] \<and>
   (([- 1, 0] ! 1 = int 0) = ([1, - 1] ! 0 = int 1)) \<and>
   (([- 1, 0] ! 0 = int 0) = ([1, - 1] ! 0 = int 0))"
  using match_maps_consistent[OF ex_valid_hp ex_valid_sp ex_rankings ex_run2] ex_run2
  by simp

theorem receivers_trade_up_witness:
  "[0, - 1 :: int] ! 0 \<noteq> - 1 \<and> [1, - 1 :: int] ! 0 \<noteq> - 1 \<and>
   [[1, 0], [1, 0 :: int]] ! 0 ! nat ([1, - 1] ! 0) < [[1, 0], [1, 0]] ! 0 ! nat ([0, - 1] ! 0)"
  using receivers_trade_up[OF ex_valid_hp ex_valid_sp ex_rankings ex_run1
      r_into_rtranclp[of "\<lambda>a b. gs_iter 2 [[0, 1], [0, 1]] [[1, 0], [1, 0]] a = Some (Inr b)",
        OF ex_iter2], of 0]
  by simp

theorem proposals_bounded_witness:
  "\<exists>sr st ps. build_rankings 2 [[1, 0], [1, 0]] = Some sr \<and>
     gs_loop 2 [[0, 1], [0, 1]] sr (gs_init 2) = Some st \<and>
     gale_shapley 2 [[0, 1], [0, 1]] [[1, 0], [1, 0]] = Some (hospital_match st) \<and>
     gs_run 2 [[0, 1], [0, 1]] sr st ps \<and> distinct ps \<and> length ps = proposal_count st \<and>
     proposal_count st \<le> 2 * 2"
  using proposals_bounded[OF ex_valid_hp ex_valid_sp] by blast

section \<open>The stability check\<close>

lemma invert_loop_ok:
  assumes "\<forall>h \<in> set hs. h < length M \<and> 0 \<le> M ! h \<and> M ! h < int (length sm0)"
    and "distinct (map ((!) M) hs)"
  shows "\<exists>sm. invert_loop (map Some M) hs sm0 = Some sm \<and> length sm = length sm0 \<and>
           (\<forall>h \<in> set hs. sm ! nat (M ! h) = Some (int h)) \<and>
           (\<forall>j<length sm0. int j \<notin> (!) M ` set hs \<longrightarrow> sm ! j = sm0 ! j)"
  using assms
proof (induction hs arbitrary: sm0)
  case Nil
  then show ?case by simp
next
  case (Cons h hs)
  let ?x = "M ! h"
  let ?sm1 = "sm0[nat ?x := Some (int h)]"
  have x: "h < length M" "0 \<le> ?x" "nat ?x < length sm0" using Cons.prems(1) by auto
  have get: "py_get (map Some M) (int h) = Some (Some ?x)" using x(1) by (simp add: py_get_nat)
  have set1: "py_set sm0 ?x (Some (int h)) = Some ?sm1" using x by (simp add: py_set_nonneg)
  have "\<forall>h' \<in> set hs. h' < length M \<and> 0 \<le> M ! h' \<and> M ! h' < int (length ?sm1)"
    using Cons.prems(1) by simp
  moreover have "distinct (map ((!) M) hs)" using Cons.prems(2) by simp
  ultimately obtain sm where sm: "invert_loop (map Some M) hs ?sm1 = Some sm"
    "length sm = length sm0" "\<forall>h' \<in> set hs. sm ! nat (M ! h') = Some (int h')"
    "\<forall>j<length sm0. int j \<notin> (!) M ` set hs \<longrightarrow> sm ! j = ?sm1 ! j"
    using Cons.IH[of ?sm1] by auto
  have "?x \<notin> (!) M ` set hs" using Cons.prems(2) by auto
  then have "int (nat ?x) \<notin> (!) M ` set hs" using x(2) by simp
  then have hx: "sm ! nat ?x = Some (int h)" using sm(4) x(3) by simp
  have a: "\<forall>h' \<in> set (h # hs). sm ! nat (M ! h') = Some (int h')" using hx sm(3) by simp
  have b: "\<forall>j<length sm0. int j \<notin> (!) M ` set (h # hs) \<longrightarrow> sm ! j = sm0 ! j"
  proof (intro allI impI)
    fix j assume j: "j < length sm0" "int j \<notin> (!) M ` set (h # hs)"
    then have "j \<noteq> nat ?x" using x(2) by auto
    then show "sm ! j = sm0 ! j" using sm(4) j by simp
  qed
  have "invert_loop (map Some M) (h # hs) sm0 = Some sm" using get set1 sm(1) by simp
  then show ?case using sm(2) a b by blast
qed

lemma invert_permutation:
  assumes "permutation_of n M"
  shows "\<exists>sm. invert_loop (map Some M) [0..<n] (replicate n None) = Some sm \<and> length sm = n \<and>
           (\<forall>h<n. sm ! nat (M ! h) = Some (int h))"
proof -
  have len: "length M = n" and d: "distinct M"
    and r: "\<forall>x \<in> set M. 0 \<le> x \<and> x < int n" using assms by (simp_all add: permutation_of_def)
  have "map ((!) M) [0..<n] = M" using len map_nth[of M] by simp
  then have d': "distinct (map ((!) M) [0..<n])" using d by simp
  have "\<forall>h \<in> set [0..<n]. h < length M \<and> 0 \<le> M ! h \<and>
      M ! h < int (length (replicate n (None :: int option)))"
    using len r by simp
  from invert_loop_ok[OF this d'] show ?thesis by auto
qed

lemma blocks_valid:
  assumes hp: "valid_prefs n hp" and hr: "rank_table n hp hr" and sr: "rank_table n sp sr"
    and M: "permutation_of n M" and len: "length sm = n"
    and inv: "\<forall>h<n. sm ! nat (M ! h) = Some (int h)"
    and h: "h < n" and s: "s < n"
  shows "blocks (map Some M) sm hr sr h s = Some (blocking_pair n hp sp (map Some M) h s)"
proof -
  have lenM: "length M = n" and dM: "distinct M" using M by (simp_all add: permutation_of_def)
  have x: "0 \<le> M ! h" "M ! h < int n" using M h by (auto simp: permutation_of_def)
  from permutation_of_nth_ex[OF M s] obtain h' where h': "h' < n" "M ! h' = int s" by blast
  have smS: "sm ! s = Some (int h')" using inv h' by fastforce
  have uniq: "p = h'" if "p < n" "M ! p = int s" for p
    using that h' lenM nth_eq_iff_index_eq[OF dM, of p h'] by simp
  have g1: "py_get (map Some M) (int h) = Some (Some (M ! h))" using h lenM by (simp add: py_get_nat)
  have g2: "py_get sm (int s) = Some (Some (int h'))" using s len smS by (simp add: py_get_nat)
  note rh = rank_table_entry[OF hr h]
  note rs = rank_table_entry[OF sr s]
  have g3: "py_get hr (int h) = Some (hr ! h)" using h by (intro rh(1)[of 0]) simp_all
  have g4: "py_get (hr ! h) (int s) = Some (int (rank_of (hp ! h) (int s)))"
    using s by (intro rh(2)) simp_all
  have g5: "py_get (hr ! h) (M ! h) = Some (int (rank_of (hp ! h) (M ! h)))"
    using x by (intro rh(2)) simp_all
  have g6: "py_get sr (int s) = Some (sr ! s)" using s by (intro rs(1)[of 0]) simp_all
  have g7: "py_get (sr ! s) (int h) = Some (int (rank_of (sp ! s) (int h)))"
    using h by (intro rs(2)) simp_all
  have g8: "py_get (sr ! s) (int h') = Some (int (rank_of (sp ! s) (int h')))"
    using h' by (intro rs(2)) simp_all
  have ev: "blocks (map Some M) sm hr sr h s =
      Some (M ! h \<noteq> int s \<and> rank_of (hp ! h) (int s) < rank_of (hp ! h) (M ! h) \<and>
            rank_of (sp ! s) (int h) < rank_of (sp ! s) (int h'))"
    by (simp add: blocks_def g1 g2 g3 g4 g5 g6 g7 g8)
  have "blocking_pair n hp sp (map Some M) h s \<longleftrightarrow>
      (M ! h \<noteq> int s \<and> rank_of (hp ! h) (int s) < rank_of (hp ! h) (M ! h) \<and>
            rank_of (sp ! s) (int h) < rank_of (sp ! s) (int h'))"
  proof
    assume "blocking_pair n hp sp (map Some M) h s"
    then obtain p' r' where b: "map Some M ! h \<noteq> Some (int s)" "p' < n"
      "map Some M ! p' = Some (int s)" "map Some M ! h = Some r'"
      "rank_of (sp ! s) (int h) < rank_of (sp ! s) (int p')"
      "rank_of (hp ! h) (int s) < rank_of (hp ! h) r'"
      unfolding blocking_pair_def by blast
    have "p' = h'" using uniq[OF b(2)] b(2,3) lenM by simp
    moreover have "r' = M ! h" using b(4) h lenM by simp
    ultimately show "M ! h \<noteq> int s \<and> rank_of (hp ! h) (int s) < rank_of (hp ! h) (M ! h) \<and>
            rank_of (sp ! s) (int h) < rank_of (sp ! s) (int h')"
      using b(1,5,6) h lenM by simp
  next
    assume a: "M ! h \<noteq> int s \<and> rank_of (hp ! h) (int s) < rank_of (hp ! h) (M ! h) \<and>
            rank_of (sp ! s) (int h) < rank_of (sp ! s) (int h')"
    show "blocking_pair n hp sp (map Some M) h s"
      unfolding blocking_pair_def
    proof (intro conjI)
      show "\<exists>p'<n. \<exists>r'. map Some M ! p' = Some (int s) \<and> map Some M ! h = Some r' \<and>
          rank_of (sp ! s) (int h) < rank_of (sp ! s) (int p') \<and>
          rank_of (hp ! h) (int s) < rank_of (hp ! h) r'"
        using a h' h lenM by (intro exI[of _ h'] conjI exI[of _ "M ! h"]) simp_all
    qed (use h s a lenM in simp_all)
  qed
  then show ?thesis using ev by simp
qed

lemma scan_students_first:
  assumes "\<forall>s<n. blocks m sm hr sr h s = Some (B s)" "j \<le> n"
  shows "\<exists>res. scan_students m sm hr sr h [j..<n] = Some res \<and>
           (case res of
              None \<Rightarrow> \<forall>s. j \<le> s \<and> s < n \<longrightarrow> \<not> B s
            | Some r \<Rightarrow> j \<le> r \<and> r < n \<and> B r \<and> (\<forall>s. j \<le> s \<and> s < r \<longrightarrow> \<not> B s))"
  using assms(2)
proof (induction "n - j" arbitrary: j)
  case 0
  then show ?case by auto
next
  case (Suc k)
  then have lt: "j < n" by simp
  have bj: "blocks m sm hr sr h j = Some (B j)" using assms(1) lt by simp
  show ?case
  proof (cases "B j")
    case True
    then have "scan_students m sm hr sr h [j..<n] = Some (Some j)"
      using lt bj by (simp add: upt_conv_Cons)
    then show ?thesis using True lt by auto
  next
    case False
    have "k = n - Suc j" using Suc.hyps(2) by simp
    from Suc.hyps(1)[OF this] lt obtain res where
      res: "scan_students m sm hr sr h [Suc j..<n] = Some res"
      "case res of
              None \<Rightarrow> \<forall>s. Suc j \<le> s \<and> s < n \<longrightarrow> \<not> B s
            | Some r \<Rightarrow> Suc j \<le> r \<and> r < n \<and> B r \<and> (\<forall>s. Suc j \<le> s \<and> s < r \<longrightarrow> \<not> B s)"
      by auto
    have e: "scan_students m sm hr sr h [j..<n] = Some res"
      using lt bj False res(1) by (simp add: upt_conv_Cons)
    have nb: "\<not> B s" if "j \<le> s" "\<not> Suc j \<le> s" for s
      using that False by (cases "s = j") auto
    show ?thesis
    proof (cases res)
      case None
      then show ?thesis using e res(2) nb by auto
    next
      case (Some r)
      then show ?thesis using e res(2) nb by auto
    qed
  qed
qed

lemma scan_hospitals_first:
  assumes "\<forall>h<n. \<forall>s<n. blocks m sm hr sr h s = Some (B h s)" "i \<le> n"
  shows "\<exists>res. scan_hospitals n m sm hr sr [i..<n] = Some res \<and>
           (case res of
              Stable \<Rightarrow> \<forall>h. i \<le> h \<and> h < n \<longrightarrow> (\<forall>s<n. \<not> B h s)
            | Unstable p r \<Rightarrow> i \<le> p \<and> p < n \<and> r < n \<and> B p r \<and> (\<forall>s<r. \<not> B p s) \<and>
                (\<forall>h. i \<le> h \<and> h < p \<longrightarrow> (\<forall>s<n. \<not> B h s)))"
  using assms(2)
proof (induction "n - i" arbitrary: i)
  case 0
  then show ?case by auto
next
  case (Suc k)
  then have lt: "i < n" by simp
  have "\<forall>s<n. blocks m sm hr sr i s = Some (B i s)" using assms(1) lt by simp
  from scan_students_first[OF this, of 0] obtain row where
    row: "scan_students m sm hr sr i [0..<n] = Some row"
    "case row of
        None \<Rightarrow> \<forall>s. 0 \<le> s \<and> s < n \<longrightarrow> \<not> B i s
      | Some r \<Rightarrow> 0 \<le> r \<and> r < n \<and> B i r \<and> (\<forall>s. 0 \<le> s \<and> s < r \<longrightarrow> \<not> B i s)" by auto
  show ?case
  proof (cases row)
    case (Some r)
    then have "scan_hospitals n m sm hr sr [i..<n] = Some (Unstable i r)"
      using lt row(1) by (simp add: upt_conv_Cons)
    then show ?thesis using row(2) Some lt by auto
  next
    case None
    then have ni: "\<forall>s<n. \<not> B i s" using row(2) by simp
    have "k = n - Suc i" using Suc.hyps(2) by simp
    from Suc.hyps(1)[OF this] lt obtain res where
      res: "scan_hospitals n m sm hr sr [Suc i..<n] = Some res"
      "case res of
              Stable \<Rightarrow> \<forall>h. Suc i \<le> h \<and> h < n \<longrightarrow> (\<forall>s<n. \<not> B h s)
            | Unstable p r \<Rightarrow> Suc i \<le> p \<and> p < n \<and> r < n \<and> B p r \<and> (\<forall>s<r. \<not> B p s) \<and>
                (\<forall>h. Suc i \<le> h \<and> h < p \<longrightarrow> (\<forall>s<n. \<not> B h s))"
      by auto
    have e: "scan_hospitals n m sm hr sr [i..<n] = Some res"
      using lt row(1) None res(1) by (simp add: upt_conv_Cons)
    have nb: "\<forall>s<n. \<not> B h s" if "i \<le> h" "\<not> Suc i \<le> h" for h
      using that ni by (cases "h = i") auto
    show ?thesis
    proof (cases res)
      case Stable
      then show ?thesis using e res(2) nb by auto
    next
      case (Unstable p r)
      then show ?thesis using e res(2) nb by auto
    qed
  qed
qed

lemma check_stability_first:
  assumes hp: "valid_prefs n hp" and sp: "valid_prefs n sp" and M: "permutation_of n M"
  shows "\<exists>res. check_stability n hp sp (map Some M) = Some res \<and>
           (case res of
              Stable \<Rightarrow> \<forall>h<n. \<forall>s<n. \<not> blocking_pair n hp sp (map Some M) h s
            | Unstable p r \<Rightarrow> blocking_pair n hp sp (map Some M) p r \<and>
                (\<forall>s<r. \<not> blocking_pair n hp sp (map Some M) p s) \<and>
                (\<forall>h<p. \<forall>s<n. \<not> blocking_pair n hp sp (map Some M) h s))"
proof -
  from invert_permutation[OF M] obtain sm where
    sm: "invert_loop (map Some M) [0..<n] (replicate n None) = Some sm" "length sm = n"
    "\<forall>h<n. sm ! nat (M ! h) = Some (int h)" by blast
  from build_rankings_ok[OF hp] obtain hr where
    hr: "build_rankings n hp = Some hr" "rank_table n hp hr" by blast
  from build_rankings_ok[OF sp] obtain sr where
    sr: "build_rankings n sp = Some sr" "rank_table n sp sr" by blast
  have b: "\<forall>h<n. \<forall>s<n. blocks (map Some M) sm hr sr h s =
      Some (blocking_pair n hp sp (map Some M) h s)"
    using blocks_valid[OF hp hr(2) sr(2) M sm(2,3)] by blast
  from scan_hospitals_first[OF b, of 0] obtain res where
    res: "scan_hospitals n (map Some M) sm hr sr [0..<n] = Some res"
    "case res of
        Stable \<Rightarrow> \<forall>h. 0 \<le> h \<and> h < n \<longrightarrow> (\<forall>s<n. \<not> blocking_pair n hp sp (map Some M) h s)
      | Unstable p r \<Rightarrow> 0 \<le> p \<and> p < n \<and> r < n \<and> blocking_pair n hp sp (map Some M) p r \<and>
          (\<forall>s<r. \<not> blocking_pair n hp sp (map Some M) p s) \<and>
          (\<forall>h. 0 \<le> h \<and> h < p \<longrightarrow> (\<forall>s<n. \<not> blocking_pair n hp sp (map Some M) h s))"
    by auto
  have "check_stability n hp sp (map Some M) = Some res"
    using sm(1) hr(1) sr(1) res(1) by (simp add: check_stability_def)
  moreover have "case res of
              Stable \<Rightarrow> \<forall>h<n. \<forall>s<n. \<not> blocking_pair n hp sp (map Some M) h s
            | Unstable p r \<Rightarrow> blocking_pair n hp sp (map Some M) p r \<and>
                (\<forall>s<r. \<not> blocking_pair n hp sp (map Some M) p s) \<and>
                (\<forall>h<p. \<forall>s<n. \<not> blocking_pair n hp sp (map Some M) h s)"
    using res(2) by (cases res) simp_all
  ultimately show ?thesis by blast
qed

lemma blocking_pair_range:
  "blocking_pair n hp sp m p r \<Longrightarrow> p < n \<and> r < n"
  by (simp add: blocking_pair_def)

text \<open>
  C4: for permutation preference tables and a pairing that is a bijection, the
  stability check reports \<open>Unstable(p, r)\<close> exactly when \<open>(p, r)\<close> is a blocking
  pair and the first one in the order of the two loops (proposers ascending, then
  receivers ascending); it reports unstable exactly when a blocking pair exists, and
  stable exactly when none does.
\<close>

theorem stability_check_exact:
  assumes "valid_prefs n hp" "valid_prefs n sp" "permutation_of n M"
  shows "(check_stability n hp sp (map Some M) = Some (Unstable p r) \<longleftrightarrow>
            blocking_pair n hp sp (map Some M) p r \<and>
            (\<forall>p' r'. blocking_pair n hp sp (map Some M) p' r' \<longrightarrow> p < p' \<or> (p = p' \<and> r \<le> r'))) \<and>
         (check_stability n hp sp (map Some M) = Some Stable \<longleftrightarrow>
            \<not> (\<exists>p' r'. blocking_pair n hp sp (map Some M) p' r')) \<and>
         ((\<exists>p' r'. check_stability n hp sp (map Some M) = Some (Unstable p' r')) \<longleftrightarrow>
            (\<exists>p' r'. blocking_pair n hp sp (map Some M) p' r'))"
proof -
  let ?B = "blocking_pair n hp sp (map Some M)"
  from check_stability_first[OF assms] obtain res where
    res: "check_stability n hp sp (map Some M) = Some res"
    "case res of
        Stable \<Rightarrow> \<forall>h<n. \<forall>s<n. \<not> ?B h s
      | Unstable p r \<Rightarrow> ?B p r \<and> (\<forall>s<r. \<not> ?B p s) \<and> (\<forall>h<p. \<forall>s<n. \<not> ?B h s)" by blast
  have rng: "p' < n \<and> r' < n" if "?B p' r'" for p' r' using that by (rule blocking_pair_range)
  show ?thesis
  proof (cases res)
    case Stable
    then have none: "\<not> ?B p' r'" for p' r' using res(2) rng[of p' r'] by auto
    show ?thesis using res(1) Stable none by simp
  next
    case (Unstable p0 r0)
    then have u: "?B p0 r0" "\<forall>s<r0. \<not> ?B p0 s" "\<forall>h<p0. \<forall>s<n. \<not> ?B h s"
      using res(2) by simp_all
    have first: "p0 < p' \<or> (p0 = p' \<and> r0 \<le> r')" if "?B p' r'" for p' r'
    proof (rule ccontr)
      assume "\<not> (p0 < p' \<or> (p0 = p' \<and> r0 \<le> r'))"
      then consider "p' < p0" | "p' = p0" "r' < r0" by linarith
      then show False
      proof cases
        case 1
        then show ?thesis using u(3) that rng[OF that] by blast
      next
        case 2
        then show ?thesis using u(2) that by blast
      qed
    qed
    have a: "check_stability n hp sp (map Some M) = Some (Unstable p r) \<longleftrightarrow>
            ?B p r \<and> (\<forall>p' r'. ?B p' r' \<longrightarrow> p < p' \<or> (p = p' \<and> r \<le> r'))"
    proof
      assume "check_stability n hp sp (map Some M) = Some (Unstable p r)"
      then have "p = p0" "r = r0" using res(1) Unstable by simp_all
      then show "?B p r \<and> (\<forall>p' r'. ?B p' r' \<longrightarrow> p < p' \<or> (p = p' \<and> r \<le> r'))"
        using u(1) first by blast
    next
      assume b: "?B p r \<and> (\<forall>p' r'. ?B p' r' \<longrightarrow> p < p' \<or> (p = p' \<and> r \<le> r'))"
      then have "p < p0 \<or> (p = p0 \<and> r \<le> r0)" using u(1) by blast
      moreover have "p0 < p \<or> (p0 = p \<and> r0 \<le> r)" using first b by blast
      ultimately have "p = p0 \<and> r = r0" by linarith
      then show "check_stability n hp sp (map Some M) = Some (Unstable p r)"
        using res(1) Unstable by simp
    qed
    have b: "check_stability n hp sp (map Some M) = Some Stable \<longleftrightarrow>
            \<not> (\<exists>p' r'. ?B p' r')" using res(1) Unstable u(1) by auto
    have c: "(\<exists>p' r'. check_stability n hp sp (map Some M) = Some (Unstable p' r')) \<longleftrightarrow>
            (\<exists>p' r'. ?B p' r')" using res(1) Unstable u(1) by auto
    from a b c show ?thesis by blast
  qed
qed

theorem stability_check_exact_witness:
  "check_stability 2 [[1, 0], [1, 0]] [[0, 1], [0, 1]] (map Some [0, 1]) = Some (Unstable 0 1) \<and>
   blocking_pair 2 [[1, 0], [1, 0]] [[0, 1], [0, 1]] (map Some [0, 1]) 0 1"
proof -
  have a: "valid_prefs 2 [[1, 0], [1, 0]]" by (simp add: valid_prefs_def permutation_of_def)
  have b: "valid_prefs 2 [[0, 1], [0, 1]]" by (simp add: valid_prefs_def permutation_of_def)
  have c: "permutation_of 2 [0, 1]" by (simp add: permutation_of_def)
  have e: "check_stability 2 [[1, 0], [1, 0]] [[0, 1], [0, 1]] (map Some [0, 1]) = Some (Unstable 0 1)"
    by code_simp
  from stability_check_exact[OF a b c, of 0 1] e show ?thesis by simp
qed

lemma check_validity_unmatched:
  assumes "n \<le> length m" "\<exists>h<n. m ! h = None"
  shows "\<exists>h<n. m ! h = None \<and> check_validity n m = Some (Invalid (Unmatched h))"
proof -
  have "\<forall>h \<in> set [0..<n]. h < length m" using assms(1) by simp
  moreover have "\<exists>h \<in> set [0..<n]. m ! h = None" using assms(2) by auto
  ultimately have "\<exists>h \<in> set [0..<n]. m ! h = None \<and>
      check_unmatched n m [0..<n] = Some (Invalid (Unmatched h))"
    by (rule check_unmatched_found)
  then show ?thesis by (auto simp: check_validity_def)
qed

lemma check_validity_duplicate:
  assumes "n \<le> length m" "\<forall>h<n. m ! h \<noteq> None" "\<exists>h2<n. \<exists>h1<h2. m ! h1 = m ! h2"
  shows "\<exists>s h1 h2. check_validity n m = Some (Invalid (Duplicate s h1 h2)) \<and>
           h1 < h2 \<and> h2 < n \<and> m ! h1 = Some s \<and> m ! h2 = Some s \<and>
           (\<forall>h<h2. \<forall>h'<h. m ! h' \<noteq> m ! h)"
proof -
  have "check_unmatched n m [0..<n] = check_duplicates n m [0..<n] []"
    using assms(1,2) by (intro check_unmatched_none) auto
  moreover have "\<forall>k v. map_of ([] :: (int option \<times> nat) list) k = Some v \<longleftrightarrow> v < 0 \<and> m ! v = k"
    by simp
  from check_duplicates_found[OF _ assms(1,2) this assms(3)]
  have "\<exists>s h1 h2. check_duplicates n m [0..<n] [] = Some (Invalid (Duplicate s h1 h2)) \<and>
           h1 < h2 \<and> h2 < n \<and> m ! h1 = Some s \<and> m ! h2 = Some s \<and>
           (\<forall>h<h2. \<forall>h'<h. m ! h' \<noteq> m ! h)" by simp
  ultimately show ?thesis by (simp add: check_validity_def)
qed

lemma check_validity_ok:
  assumes "length m = n" "\<forall>h<n. m ! h \<noteq> None" "\<forall>h2<n. \<forall>h1<h2. m ! h1 \<noteq> m ! h2"
  shows "check_validity n m = Some Valid \<and> distinct m"
proof -
  have dist: "distinct m"
    unfolding distinct_conv_nth
  proof (intro allI impI)
    fix i j assume "i < length m" "j < length m" "i \<noteq> j"
    then show "m ! i \<noteq> m ! j"
      using assms(1,3) by (cases "i < j") (auto simp: not_less le_less dest: not_sym)
  qed
  have "map ((!) m) [0..<n] = m" using assms(1) map_nth[of m] by simp
  then have "distinct (map ((!) m) [0..<n])" using dist by simp
  then have "check_duplicates n m [0..<n] [] = Some Valid"
    using assms(1) by (intro check_duplicates_valid) auto
  moreover have "check_unmatched n m [0..<n] = check_duplicates n m [0..<n] []"
    using assms(1,2) by (intro check_unmatched_none) auto
  ultimately show ?thesis using dist by (simp add: check_validity_def)
qed

lemma check_validity_permutation:
  assumes "permutation_of n M"
  shows "check_validity n (map Some M) = Some Valid"
proof -
  have len: "length M = n" and d: "distinct M" using assms by (simp_all add: permutation_of_def)
  have "\<forall>h2<n. \<forall>h1<h2. map Some M ! h1 \<noteq> map Some M ! h2"
    using len d by (auto simp: nth_eq_iff_index_eq)
  moreover have "\<forall>h<n. map Some M ! h \<noteq> None" using len by simp
  ultimately show ?thesis using check_validity_ok[of "map Some M" n] len by simp
qed

lemma well_shaped_permutation:
  assumes "length m = n" "\<forall>h<n. m ! h \<noteq> None" "distinct m"
    and "\<forall>x \<in> set m. x = None \<or> (\<exists>s. x = Some s \<and> 0 \<le> s \<and> s < int n)"
  shows "m = map Some (map the m) \<and> permutation_of n (map the m)"
proof -
  have nn: "\<forall>x \<in> set m. x \<noteq> None" using assms(1,2) by (auto simp: in_set_conv_nth)
  then have e: "map Some (map the m) = m" by (induction m) auto
  have "inj_on the (set m)"
  proof (rule inj_onI)
    fix x y assume "x \<in> set m" "y \<in> set m" "the x = the y"
    then show "x = y" using nn by (cases x; cases y) auto
  qed
  then have "distinct (map the m)" using assms(3) by (simp add: distinct_map)
  moreover have "\<forall>x \<in> set (map the m). 0 \<le> x \<and> x < int n" using assms(4) nn by fastforce
  ultimately show ?thesis using e assms(1) by (simp add: permutation_of_def)
qed

text \<open>
  C5: validity precedes stability. For a pairing of \<open>n\<close> entries, when some proposer
  is unmatched or two proposers have the same receiver the verifier reports invalid,
  with the defect found by the validity check; it reports stable or unstable only
  where the validity check has passed and the pairing has neither defect; and for
  permutation preference tables and entries that are \<^verbatim>\<open>None\<close> or an index the
  verifier returns a verdict, which is one of the three.
\<close>

theorem validity_precedes_stability:
  assumes "length m = n"
  shows "(((\<exists>h<n. m ! h = None) \<or> (\<exists>h2<n. \<exists>h1<h2. m ! h1 = m ! h2)) \<longrightarrow>
            (\<exists>d. check_validity n m = Some (Invalid d) \<and> verify n hp sp m = Some (VInvalid d))) \<and>
         ((verify n hp sp m = Some VStable \<or> (\<exists>p r. verify n hp sp m = Some (VUnstable p r))) \<longrightarrow>
            check_validity n m = Some Valid \<and>
            (\<forall>h<n. m ! h \<noteq> None) \<and> (\<forall>h2<n. \<forall>h1<h2. m ! h1 \<noteq> m ! h2)) \<and>
         (valid_prefs n hp \<and> valid_prefs n sp \<and>
          (\<forall>x \<in> set m. x = None \<or> (\<exists>s. x = Some s \<and> 0 \<le> s \<and> s < int n)) \<longrightarrow>
            (\<exists>v. verify n hp sp m = Some v))"
proof -
  have inv: "\<exists>d. check_validity n m = Some (Invalid d) \<and> verify n hp sp m = Some (VInvalid d)"
    if "(\<exists>h<n. m ! h = None) \<or> (\<exists>h2<n. \<exists>h1<h2. m ! h1 = m ! h2)"
  proof (cases "\<exists>h<n. m ! h = None")
    case True
    from check_validity_unmatched[OF _ True] assms obtain h where
      "check_validity n m = Some (Invalid (Unmatched h))" by auto
    then show ?thesis by (simp add: verify_def)
  next
    case False
    then have nn: "\<forall>h<n. m ! h \<noteq> None" by simp
    have "\<exists>h2<n. \<exists>h1<h2. m ! h1 = m ! h2" using that False by blast
    from check_validity_duplicate[OF _ nn this] assms obtain s h1 h2 where
      "check_validity n m = Some (Invalid (Duplicate s h1 h2))" by auto
    then show ?thesis by (simp add: verify_def)
  qed
  have val: "check_validity n m = Some Valid"
    if "verify n hp sp m = Some VStable \<or> (\<exists>p r. verify n hp sp m = Some (VUnstable p r))"
    using that by (auto simp: verify_def split: bind_splits validity.splits stability.splits)
  have pre: "check_validity n m = Some Valid \<and>
            (\<forall>h<n. m ! h \<noteq> None) \<and> (\<forall>h2<n. \<forall>h1<h2. m ! h1 \<noteq> m ! h2)"
    if "verify n hp sp m = Some VStable \<or> (\<exists>p r. verify n hp sp m = Some (VUnstable p r))"
  proof -
    have v: "check_validity n m = Some Valid" by (rule val[OF that])
    have "\<not> ((\<exists>h<n. m ! h = None) \<or> (\<exists>h2<n. \<exists>h1<h2. m ! h1 = m ! h2))"
    proof
      assume "(\<exists>h<n. m ! h = None) \<or> (\<exists>h2<n. \<exists>h1<h2. m ! h1 = m ! h2)"
      from inv[OF this] v show False by simp
    qed
    then show ?thesis using v by auto
  qed
  have tot: "\<exists>v. verify n hp sp m = Some v"
    if a: "valid_prefs n hp \<and> valid_prefs n sp \<and>
          (\<forall>x \<in> set m. x = None \<or> (\<exists>s. x = Some s \<and> 0 \<le> s \<and> s < int n))"
  proof (cases "(\<exists>h<n. m ! h = None) \<or> (\<exists>h2<n. \<exists>h1<h2. m ! h1 = m ! h2)")
    case True
    from inv[OF True] show ?thesis by blast
  next
    case False
    then have nn: "\<forall>h<n. m ! h \<noteq> None" and nd: "\<forall>h2<n. \<forall>h1<h2. m ! h1 \<noteq> m ! h2" by auto
    from check_validity_ok[OF assms nn nd] have v: "check_validity n m = Some Valid"
      and d: "distinct m" by simp_all
    from well_shaped_permutation[OF assms nn d] a have
      e: "m = map Some (map the m)" and p: "permutation_of n (map the m)" by simp_all
    from check_stability_first[OF _ _ p, of hp sp] a e obtain res where
      "check_stability n hp sp m = Some res" by auto
    then show ?thesis using v by (cases res) (simp_all add: verify_def)
  qed
  from inv pre tot show ?thesis by blast
qed

theorem validity_precedes_stability_witness:
  "check_validity 2 [Some 1, Some 1] = Some (Invalid (Duplicate 1 0 1)) \<and>
   verify 2 [[1, 0], [1, 0]] [[0, 1], [0, 1]] [Some 1, Some 1] = Some (VInvalid (Duplicate 1 0 1))"
proof -
  have e: "check_validity 2 [Some 1, Some 1] = Some (Invalid (Duplicate 1 0 1))" by code_simp
  have "\<exists>h2<2::nat. \<exists>h1<h2. [Some (1::int), Some 1] ! h1 = [Some 1, Some 1] ! h2"
    by (intro exI[of _ 1] exI[of _ 0]) simp
  with validity_precedes_stability[of "[Some 1, Some 1]" 2 "[[1, 0], [1, 0]]" "[[0, 1], [0, 1]]"] e
  show ?thesis by auto
qed

lemma final_stable:
  assumes inv: "gs_inv n hp sp st" and hp: "valid_prefs n hp"
    and fin: "\<forall>h<n. hospital_match st ! h \<noteq> - 1 \<or> \<not> next_proposal st ! h < int n"
  shows "\<not> blocking_pair n hp sp (map Some (hospital_match st)) p r"
proof
  assume b: "blocking_pair n hp sp (map Some (hospital_match st)) p r"
  have sh: "shape n st" and con: "consistent n st" and lp: "last_proposed n hp st"
    and se: "settled n hp sp st" using inv by (simp_all add: gs_inv_def)
  note len = shape_len[OF sh]
  from b obtain p' r' where b': "p < n" "r < n" "p' < n"
    "map Some (hospital_match st) ! p' = Some (int r)"
    "map Some (hospital_match st) ! p = Some r'"
    "map Some (hospital_match st) ! p \<noteq> Some (int r)"
    "rank_of (sp ! r) (int p) < rank_of (sp ! r) (int p')"
    "rank_of (hp ! p) (int r) < rank_of (hp ! p) r'"
    unfolding blocking_pair_def by blast
  have hp': "hospital_match st ! p' = int r" and hp0: "hospital_match st ! p = r'"
    using b'(1,3,4,5) len(1) by simp_all
  have perm: "permutation_of n (hp ! p)" by (rule valid_prefs_nth[OF hp b'(1)])
  then have d: "distinct (hp ! p)" and lp1: "length (hp ! p) = n" by (simp_all add: permutation_of_def)
  have m: "hospital_match st ! p \<noteq> - 1" by (rule final_all_matched[OF inv hp fin b'(1)])
  from last_proposedD[OF lp b'(1) m] have k: "0 < next_proposal st ! p"
    "r' = hp ! p ! (nat (next_proposal st ! p) - 1)" using hp0 by simp_all
  let ?k = "nat (next_proposal st ! p)"
  have kn: "?k - 1 < n" using shape_cursor[OF sh b'(1)] k(1) by linarith
  have rr': "rank_of (hp ! p) r' = ?k - 1" using rank_of_nth[OF d, of "?k - 1"] kn lp1 k(2) by simp
  let ?j = "rank_of (hp ! p) (int r)"
  have rin: "int r \<in> set (hp ! p)" by (rule permutation_of_mem[OF perm b'(2)])
  have j: "hp ! p ! ?j = int r" by (rule nth_rank_of[OF rin])
  have jk: "?j < ?k" using b'(8) rr' by linarith
  from settledD[OF se b'(1) jk] j
  have "rank_of (sp ! r) (student_match st ! r) \<le> rank_of (sp ! r) (int p)" by simp
  moreover have "student_match st ! r = int p'" using consistentD[OF con b'(3,2)] hp' by simp
  ultimately show False using b'(7) by simp
qed

lemma final_verified:
  assumes inv: "gs_inv n hp sp st" and hp: "valid_prefs n hp" and sp: "valid_prefs n sp"
    and fin: "\<forall>h<n. hospital_match st ! h \<noteq> - 1 \<or> \<not> next_proposal st ! h < int n"
  shows "check_validity n (map Some (hospital_match st)) = Some Valid \<and>
         check_stability n hp sp (map Some (hospital_match st)) = Some Stable"
proof -
  have p: "permutation_of n (hospital_match st)" by (rule final_permutation[OF inv hp fin])
  from check_stability_first[OF hp sp p] obtain res where
    res: "check_stability n hp sp (map Some (hospital_match st)) = Some res"
    "case res of
        Stable \<Rightarrow> \<forall>h<n. \<forall>s<n. \<not> blocking_pair n hp sp (map Some (hospital_match st)) h s
      | Unstable p r \<Rightarrow> blocking_pair n hp sp (map Some (hospital_match st)) p r \<and>
          (\<forall>s<r. \<not> blocking_pair n hp sp (map Some (hospital_match st)) p s) \<and>
          (\<forall>h<p. \<forall>s<n. \<not> blocking_pair n hp sp (map Some (hospital_match st)) h s)" by blast
  have "res = Stable"
  proof (cases res)
    case (Unstable p r)
    then show ?thesis using res(2) final_stable[OF inv hp fin, of p r] by simp
  qed simp
  then show ?thesis using res(1) check_validity_permutation[OF p] by simp
qed

text \<open>
  C1: for preference tables that are permutations of \<open>0..n-1\<close>, the pairing that
  \<^verbatim>\<open>gale_shapley\<close> returns is stable: the stability check finds no blocking pair
  in it, the verifier fed with it answers stable, and no pair of the specification's
  blocking pairs exists.
\<close>

theorem gale_shapley_stable:
  assumes "valid_prefs n hp" "valid_prefs n sp"
  shows "\<exists>m. gale_shapley n hp sp = Some m \<and>
           check_stability n hp sp (map Some m) = Some Stable \<and>
           verify n hp sp (map Some m) = Some VStable \<and>
           (\<forall>p r. \<not> blocking_pair n hp sp (map Some m) p r)"
proof -
  from gale_shapley_final[OF assms] obtain sr st where
    st: "gale_shapley n hp sp = Some (hospital_match st)" "gs_inv n hp sp st"
    "\<forall>h<n. hospital_match st ! h \<noteq> - 1 \<or> \<not> next_proposal st ! h < int n" by blast
  from final_verified[OF st(2) assms st(3)]
  have v: "check_validity n (map Some (hospital_match st)) = Some Valid"
    "check_stability n hp sp (map Some (hospital_match st)) = Some Stable" by simp_all
  then have "verify n hp sp (map Some (hospital_match st)) = Some VStable"
    by (simp add: verify_def)
  moreover have "\<forall>p r. \<not> blocking_pair n hp sp (map Some (hospital_match st)) p r"
    using final_stable[OF st(2) assms(1) st(3)] by blast
  ultimately show ?thesis using st(1) v(2) by blast
qed

theorem gale_shapley_stable_witness:
  "gale_shapley 3 [[0,1,2],[1,0,2],[0,1,2]] [[1,0,2],[0,1,2],[0,1,2]] = Some [0, 1, 2] \<and>
   verify 3 [[0,1,2],[1,0,2],[0,1,2]] [[1,0,2],[0,1,2],[0,1,2]] (map Some [0, 1, 2]) = Some VStable"
  using gale_shapley_stable[OF valid_example] run_example by auto

section \<open>Proposer-optimality\<close>

lemma unattainableD:
  "unattainable n hp sp st \<Longrightarrow> h < n \<Longrightarrow> k < nat (next_proposal st ! h) \<Longrightarrow>
   hp ! h ! k \<noteq> hospital_match st ! h \<Longrightarrow> stable_matching n hp sp m \<Longrightarrow> m ! h \<noteq> hp ! h ! k"
  by (simp add: unattainable_def)

lemma stable_matching_entry:
  assumes "stable_matching n hp sp m" "h < n"
  shows "0 \<le> m ! h \<and> m ! h < int n \<and> nat (m ! h) < n"
proof -
  have "permutation_of n m" using assms(1) by (simp add: stable_matching_def)
  then have "m ! h \<in> set m" "\<forall>x \<in> set m. 0 \<le> x \<and> x < int n"
    using assms(2) by (simp_all add: permutation_of_def)
  then show ?thesis by auto
qed

lemma stable_rank_lower_bound:
  assumes un: "unattainable n hp sp st" and hp: "valid_prefs n hp"
    and m: "stable_matching n hp sp m" and x: "x < n"
    and j: "j \<le> nat (next_proposal st ! x)" and rej: "\<forall>k<j. hp ! x ! k \<noteq> hospital_match st ! x"
  shows "j \<le> rank_of (hp ! x) (m ! x)"
proof (rule ccontr)
  assume "\<not> j \<le> rank_of (hp ! x) (m ! x)"
  then have lt: "rank_of (hp ! x) (m ! x) < j" by simp
  have perm: "permutation_of n (hp ! x)" by (rule valid_prefs_nth[OF hp x])
  have e: "0 \<le> m ! x" "nat (m ! x) < n" using stable_matching_entry[OF m x] by simp_all
  have "int (nat (m ! x)) \<in> set (hp ! x)" by (rule permutation_of_mem[OF perm e(2)])
  then have "m ! x \<in> set (hp ! x)" using e(1) by simp
  then have nth: "hp ! x ! rank_of (hp ! x) (m ! x) = m ! x" by (rule nth_rank_of)
  have "m ! x \<noteq> hp ! x ! rank_of (hp ! x) (m ! x)"
    using unattainableD[OF un x _ _ m, of "rank_of (hp ! x) (m ! x)"] lt j rej by simp
  then show False using nth by simp
qed

lemma rejected_unattainable:
  assumes hp: "valid_prefs n hp" and sp: "valid_prefs n sp" and m: "stable_matching n hp sp m"
    and a: "a < n" and b: "b < n" and s: "s < n" and ab: "a \<noteq> b"
    and pref: "rank_of (sp ! s) (int a) < rank_of (sp ! s) (int b)"
    and j: "j < n" "hp ! a ! j = int s" "j \<le> rank_of (hp ! a) (m ! a)"
  shows "m ! b \<noteq> int s"
proof
  assume mb: "m ! b = int s"
  have pm: "permutation_of n m" using m by (simp add: stable_matching_def)
  then have dm: "distinct m" and lm: "length m = n" by (simp_all add: permutation_of_def)
  have ma: "m ! a \<noteq> int s" using nth_eq_iff_index_eq[OF dm, of a b] a b lm ab mb by simp
  have perm: "permutation_of n (hp ! a)" by (rule valid_prefs_nth[OF hp a])
  then have d: "distinct (hp ! a)" and la: "length (hp ! a) = n" by (simp_all add: permutation_of_def)
  have rs: "rank_of (hp ! a) (int s) = j" using rank_of_nth[OF d, of j] j(1,2) la by simp
  have e: "0 \<le> m ! a" "nat (m ! a) < n" using stable_matching_entry[OF m a] by simp_all
  have "int (nat (m ! a)) \<in> set (hp ! a)" by (rule permutation_of_mem[OF perm e(2)])
  then have min: "m ! a \<in> set (hp ! a)" using e(1) by simp
  have sin: "int s \<in> set (hp ! a)" by (rule permutation_of_mem[OF perm s])
  have "rank_of (hp ! a) (m ! a) \<noteq> j" using rank_of_inj[OF min sin] rs ma by auto
  then have lt: "rank_of (hp ! a) (int s) < rank_of (hp ! a) (m ! a)" using j(3) rs by simp
  have "blocking_pair n hp sp (map Some m) a s"
    unfolding blocking_pair_def
  proof (intro conjI)
    show "\<exists>p'<n. \<exists>r'. map Some m ! p' = Some (int s) \<and> map Some m ! a = Some r' \<and>
        rank_of (sp ! s) (int a) < rank_of (sp ! s) (int p') \<and>
        rank_of (hp ! a) (int s) < rank_of (hp ! a) r'"
      using b mb a lm pref lt by (intro exI[of _ b] conjI exI[of _ "m ! a"]) simp_all
  qed (use a s ma lm in simp_all)
  then show False using m a s by (simp add: stable_matching_def)
qed

lemma unattainable_init: "unattainable n hp sp (gs_init n)"
  by (simp add: unattainable_def gs_init_def)

lemma unattainable_step:
  assumes inv: "gs_inv n hp sp st" and hp: "valid_prefs n hp" and sp: "valid_prefs n sp"
    and un: "unattainable n hp sp st"
    and h: "h < n" and free: "hospital_match st ! h = - 1" and k: "next_proposal st ! h < int n"
    and step: "proposal_step hp sp st h st'"
  shows "unattainable n hp sp st'"
proof -
  have sh: "shape n st" and con: "consistent n st" and lp: "last_proposed n hp st"
    using inv by (simp_all add: gs_inv_def)
  note len = shape_len[OF sh]
  note cur = proposal_step_cursor[OF step]
  let ?k = "nat (next_proposal st ! h)"
  have k0: "0 \<le> next_proposal st ! h" using shape_cursor[OF sh h] by simp
  have kn: "?k < n" using k k0 by simp
  have nph: "nat (next_proposal st' ! h) = Suc ?k"
    using cur h len(3) k0 by (simp add: nat_add_distrib)
  have npo: "next_proposal st' ! h' = next_proposal st ! h'" if "h' \<noteq> h" for h'
    using cur that by simp
  have fr: "hp ! h ! k' \<noteq> hospital_match st ! h" if "k' < n" for k'
    using valid_prefs_entry[OF hp h that] free by simp
  have old_h: "m ! h \<noteq> hp ! h ! k'" if "k' < ?k" "stable_matching n hp sp m" for k' m
    using unattainableD[OF un h that(1) _ that(2)] fr[of k'] that(1) kn by simp
  have lb_h: "?k \<le> rank_of (hp ! h) (m ! h)" if "stable_matching n hp sp m" for m
    using stable_rank_lower_bound[OF un hp that h, of ?k] fr kn by simp
  from sh hp h k step show ?thesis
  proof (cases rule: proposal_step_cases)
    case (accept s)
    show ?thesis unfolding unattainable_def
    proof (intro allI impI)
      fix h' k' m
      assume a: "h' < n" "k' < nat (next_proposal st' ! h')"
        "hp ! h' ! k' \<noteq> hospital_match st' ! h'" "stable_matching n hp sp m"
      show "m ! h' \<noteq> hp ! h' ! k'"
      proof (cases "h' = h")
        case True
        have "hospital_match st' ! h = int s" using h len(1) by (simp add: accept(4))
        then have "k' \<noteq> ?k" using a(3) True accept(2) by auto
        then have "k' < ?k" using a(2) True nph by simp
        then show ?thesis using old_h[OF _ a(4)] True by simp
      next
        case False
        then have "hospital_match st' ! h' = hospital_match st ! h'" by (simp add: accept(4))
        then show ?thesis using unattainableD[OF un a(1) _ _ a(4), of k'] a(2,3) npo[OF False]
          by simp
      qed
    qed
  next
    case (reject s c)
    have hc: "hospital_match st ! c = int s" using consistentD[OF con reject(2,1)] reject(4) by simp
    then have ch: "c \<noteq> h" using free by auto
    from last_proposedD[OF lp reject(2)] hc
    have lc: "0 < next_proposal st ! c" "hp ! c ! (nat (next_proposal st ! c) - 1) = int s" by simp_all
    let ?j = "nat (next_proposal st ! c) - 1"
    have jn: "?j < n" using shape_cursor[OF sh reject(2)] lc(1) by linarith
    have pc: "permutation_of n (hp ! c)" by (rule valid_prefs_nth[OF hp reject(2)])
    then have dc: "distinct (hp ! c)" and lnc: "length (hp ! c) = n"
      by (simp_all add: permutation_of_def)
    have rejc: "\<forall>k'<?j. hp ! c ! k' \<noteq> hospital_match st ! c"
    proof (intro allI impI notI)
      fix k' assume a: "k' < ?j" "hp ! c ! k' = hospital_match st ! c"
      then have "hp ! c ! k' = hp ! c ! ?j" using lc(2) hc by simp
      moreover have "k' < length (hp ! c)" "?j < length (hp ! c)" using a(1) jn lnc by simp_all
      ultimately have "k' = ?j" using nth_eq_iff_index_eq[OF dc] by blast
      then show False using a(1) by simp
    qed
    have ps: "permutation_of n (sp ! s)" by (rule valid_prefs_nth[OF sp reject(1)])
    have "rank_of (sp ! s) (int c) \<noteq> rank_of (sp ! s) (int h)"
      using rank_of_inj[OF permutation_of_mem[OF ps reject(2)] permutation_of_mem[OF ps h]] ch
      by auto
    then have pref: "rank_of (sp ! s) (int c) < rank_of (sp ! s) (int h)" using reject(5) by simp
    have new: "m ! h \<noteq> int s" if m: "stable_matching n hp sp m" for m
    proof -
      have "?j \<le> rank_of (hp ! c) (m ! c)"
        by (rule stable_rank_lower_bound[OF un hp m reject(2) _ rejc]) simp
      from rejected_unattainable[OF hp sp m reject(2) h reject(1) ch pref jn lc(2) this]
      show ?thesis .
    qed
    show ?thesis unfolding unattainable_def
    proof (intro allI impI)
      fix h' k' m
      assume a: "h' < n" "k' < nat (next_proposal st' ! h')"
        "hp ! h' ! k' \<noteq> hospital_match st' ! h'" "stable_matching n hp sp m"
      show "m ! h' \<noteq> hp ! h' ! k'"
      proof (cases "h' = h")
        case True
        show ?thesis
        proof (cases "k' = ?k")
          case kk: True
          then show ?thesis using new[OF a(4)] True reject(3) by simp
        next
          case False
          then have "k' < ?k" using a(2) True nph by simp
          then show ?thesis using old_h[OF _ a(4)] True by simp
        qed
      next
        case False
        then show ?thesis using unattainableD[OF un a(1) _ _ a(4), of k'] a(2,3) npo[OF False]
          by (simp add: reject(6))
      qed
    qed
  next
    case (swap s c)
    have hc: "hospital_match st ! c = int s" using consistentD[OF con swap(2,1)] swap(4) by simp
    then have ch: "c \<noteq> h" using free by auto
    have new: "m ! c \<noteq> int s" if m: "stable_matching n hp sp m" for m
      using rejected_unattainable[OF hp sp m h swap(2,1) _ swap(5) kn swap(3) lb_h[OF m]] ch
      by simp
    show ?thesis unfolding unattainable_def
    proof (intro allI impI)
      fix h' k' m
      assume a: "h' < n" "k' < nat (next_proposal st' ! h')"
        "hp ! h' ! k' \<noteq> hospital_match st' ! h'" "stable_matching n hp sp m"
      show "m ! h' \<noteq> hp ! h' ! k'"
      proof (cases "h' = h")
        case True
        have "hospital_match st' ! h = int s" using h len(1) by (simp add: swap(6))
        then have "k' \<noteq> ?k" using a(3) True swap(3) by auto
        then have "k' < ?k" using a(2) True nph by simp
        then show ?thesis using old_h[OF _ a(4)] True by simp
      next
        case False
        show ?thesis
        proof (cases "h' = c \<and> hp ! c ! k' = int s")
          case True
          then show ?thesis using new[OF a(4)] by simp
        next
          case nc: False
          have "hp ! h' ! k' \<noteq> hospital_match st ! h'"
          proof (cases "h' = c")
            case True
            then show ?thesis using nc hc by simp
          next
            case hc': False
            then show ?thesis using a(3) False by (simp add: swap(6))
          qed
          then show ?thesis using unattainableD[OF un a(1) _ _ a(4), of k'] a(2) npo[OF False]
            by simp
        qed
      qed
    qed
  qed
qed

lemma gs_run_unattainable:
  assumes "gs_run n hp sr st ps" "valid_prefs n hp" "valid_prefs n sp" "rank_table n sp sr"
  shows "unattainable n hp sp st"
  using assms
proof (induction rule: gs_run.induct)
  case gs_run_init
  show ?case by (rule unattainable_init)
next
  case (gs_run_step st ps f s st')
  have inv: "gs_inv n hp sp st"
    by (rule gs_run_inv[OF gs_run_step.hyps(1) gs_run_step.prems(1,3)])
  have un: "unattainable n hp sp st" by (rule gs_run_step.IH[OF gs_run_step.prems])
  from find_free_found[OF gs_run_step.hyps(2,3)] obtain h where
    h: "h < n" "f = int h" "hospital_match st ! h = - 1" "next_proposal st ! h < int n" by auto
  from propose_valid[OF gs_inv_shape[OF inv] gs_run_step.prems(1,3) h(1,4)]
    gs_run_step.hyps(5) h(2)
  have step: "proposal_step hp sp st h st'" by auto
  show ?case
    by (rule unattainable_step[OF inv gs_run_step.prems(1,2) un h(1,3,4) step])
qed

lemma stable_matching_checked:
  assumes hp: "valid_prefs n hp" and sp: "valid_prefs n sp" and M: "permutation_of n M"
    and st: "check_stability n hp sp (map Some M) = Some Stable"
  shows "stable_matching n hp sp M"
proof -
  from check_stability_first[OF hp sp M] st
  have "\<forall>h<n. \<forall>s<n. \<not> blocking_pair n hp sp (map Some M) h s" by auto
  then show ?thesis using M by (simp add: stable_matching_def)
qed

lemma final_optimal:
  assumes inv: "gs_inv n hp sp st" and hp: "valid_prefs n hp"
    and un: "unattainable n hp sp st"
    and fin: "\<forall>h<n. hospital_match st ! h \<noteq> - 1 \<or> \<not> next_proposal st ! h < int n"
    and m: "stable_matching n hp sp m" and p: "p < n"
  shows "rank_of (hp ! p) (hospital_match st ! p) \<le> rank_of (hp ! p) (m ! p)"
proof -
  have sh: "shape n st" and lp: "last_proposed n hp st" using inv by (simp_all add: gs_inv_def)
  have mt: "hospital_match st ! p \<noteq> - 1" by (rule final_all_matched[OF inv hp fin p])
  let ?j = "nat (next_proposal st ! p) - 1"
  from last_proposedD[OF lp p mt]
  have l: "0 < next_proposal st ! p" "hospital_match st ! p = hp ! p ! ?j" by simp_all
  have jn: "?j < n" using shape_cursor[OF sh p] l(1) by linarith
  have perm: "permutation_of n (hp ! p)" by (rule valid_prefs_nth[OF hp p])
  then have d: "distinct (hp ! p)" and ln: "length (hp ! p) = n" by (simp_all add: permutation_of_def)
  have rej: "\<forall>k'<?j. hp ! p ! k' \<noteq> hospital_match st ! p"
  proof (intro allI impI notI)
    fix k' assume a: "k' < ?j" "hp ! p ! k' = hospital_match st ! p"
    then have "hp ! p ! k' = hp ! p ! ?j" using l(2) by simp
    moreover have "k' < length (hp ! p)" "?j < length (hp ! p)" using a(1) jn ln by simp_all
    ultimately have "k' = ?j" using nth_eq_iff_index_eq[OF d] by blast
    then show False using a(1) by simp
  qed
  have "?j \<le> rank_of (hp ! p) (m ! p)"
    by (rule stable_rank_lower_bound[OF un hp m p _ rej]) simp
  moreover have "rank_of (hp ! p) (hospital_match st ! p) = ?j"
    using rank_of_nth[OF d, of ?j] jn ln l(2) by simp
  ultimately show ?thesis by simp
qed

text \<open>
  C6: the pairing of \<^verbatim>\<open>gale_shapley\<close> is proposer-optimal. For permutation
  preference tables, every stable matching \<open>M'\<close> (a perfect matching with no blocking
  pair, or one that the stability check certifies) and every proposer \<open>p\<close>: the rank
  \<open>p\<close> gives the receiver the engine assigns it is at most the rank \<open>p\<close> gives
  \<open>M'(p)\<close>.
\<close>

theorem proposer_optimal:
  assumes "valid_prefs n hp" "valid_prefs n sp"
    and "stable_matching n hp sp M' \<or>
         (permutation_of n M' \<and> check_stability n hp sp (map Some M') = Some Stable)"
    and "p < n"
  shows "\<exists>m. gale_shapley n hp sp = Some m \<and> rank_of (hp ! p) (m ! p) \<le> rank_of (hp ! p) (M' ! p)"
proof -
  from build_rankings_ok[OF assms(2)] obtain sr where
    sr: "build_rankings n sp = Some sr" "rank_table n sp sr" by blast
  from gs_loop_inv[OF gs_inv_init assms(1) sr(2)] obtain st where
    st: "gs_loop n hp sr (gs_init n) = Some st" "gs_inv n hp sp st"
    "\<forall>h<n. hospital_match st ! h \<noteq> - 1 \<or> \<not> next_proposal st ! h < int n" by blast
  from gs_loop_run[OF gs_run_init assms(1) sr(2)] st(1) obtain ps where
    ps: "gs_run n hp sr st ps" by auto
  have un: "unattainable n hp sp st" by (rule gs_run_unattainable[OF ps assms(1,2) sr(2)])
  have m: "stable_matching n hp sp M'"
    using assms(3) stable_matching_checked[OF assms(1,2)] by blast
  have "gale_shapley n hp sp = Some (hospital_match st)"
    using sr(1) st(1) by (simp add: gale_shapley_def)
  then show ?thesis using final_optimal[OF st(2) assms(1) un st(3) m assms(4)] by blast
qed

theorem proposer_optimal_witness:
  "gale_shapley 2 [[0, 1], [1, 0]] [[1, 0], [0, 1]] = Some [0, 1] \<and>
   check_stability 2 [[0, 1], [1, 0]] [[1, 0], [0, 1]] (map Some [1, 0]) = Some Stable \<and>
   rank_of ([[0, 1], [1, 0]] ! 0) ([0, 1] ! 0) \<le> rank_of ([[0, 1], [1, 0]] ! 0) ([1, 0] ! 0)"
proof -
  have a: "valid_prefs 2 [[0, 1], [1, 0]]" by (simp add: valid_prefs_def permutation_of_def)
  have b: "valid_prefs 2 [[1, 0], [0, 1]]" by (simp add: valid_prefs_def permutation_of_def)
  have c: "permutation_of 2 [1, 0]" by (simp add: permutation_of_def)
  have d: "check_stability 2 [[0, 1], [1, 0]] [[1, 0], [0, 1]] (map Some [1, 0]) = Some Stable"
    by code_simp
  have e: "gale_shapley 2 [[0, 1], [1, 0]] [[1, 0], [0, 1]] = Some [0, 1]" by code_simp
  have f: "stable_matching 2 [[0, 1], [1, 0]] [[1, 0], [0, 1]] [1, 0] \<or>
         (permutation_of 2 [1, 0] \<and>
          check_stability 2 [[0, 1], [1, 0]] [[1, 0], [0, 1]] (map Some [1, 0]) = Some Stable)"
    using c d by blast
  from proposer_optimal[OF a b f, of 0] e d show ?thesis by auto
qed

end
